theory Spec2Isabelle
  imports Main "HOL-Library.Word" "HOL-Library.Sublist"
begin

section \<open>Event dispatch of a fiber context\<close>

text \<open>
  The model follows \<^verbatim>\<open>Context\<close> (context.cpp and context.hpp): a context owns a map from
  event paths to handler blocks, the handler context of the dispatch in flight and, through
  its control block, a mailbox, an executor pointer and a spin mutex.

  A \<^verbatim>\<open>Path\<close> is an opaque key and the payload of an event is an opaque pointer; both are
  plain values here. The class \<^verbatim>\<open>Handler\<close> (handler.hpp) is a user callback with a
  destroyed flag. Its function is a parameter of the model: a list of the steps a handler can
  take that dispatch can observe, namely calling \<^verbatim>\<open>context->super()\<close>, throwing the
  \<^verbatim>\<open>EventFired\<close> transfer with the value it received (what an await handler does), and
  throwing any other exception.
\<close>

type_synonym Path = string
type_synonym payload = nat

datatype exn = EventFired payload | UserException nat

datatype hcmd = CallSuper | ThrowEventFired | ThrowUser nat

record Handler =
  hid :: nat
  isDestroyed :: bool
  body :: "hcmd list"

record PendingEvent =
  path :: Path
  data :: payload
  freeData :: nat

text \<open>
  A \<^verbatim>\<open>std::list\<close> iterator into \<^verbatim>\<open>stackedHandlers\<close> is a position, \<open>Pos (length hs)\<close>
  being \<^verbatim>\<open>end()\<close> and \<open>Pos 0\<close> being \<^verbatim>\<open>begin()\<close>. An iterator whose node has been erased is
  \<open>Dangling\<close>: comparing or decrementing it has no defined behaviour.
\<close>

datatype cursor = Pos nat | Dangling

record HandlerContext =
  handlerBlock :: Path
  handler :: cursor
  hdata :: payload

text \<open>
  Every effect that the claims speak about is appended to a trace: mailbox operations,
  handler executions, calls of an event's \<^verbatim>\<open>freeData\<close>, and the operations on the control
  block's mutex and executor. \<open>DequeueEmpty\<close> is the \<^verbatim>\<open>dequeue\<close> under the mutex in
  \<^verbatim>\<open>yield\<close> that finds the mailbox empty.
\<close>

datatype action =
    Enqueue PendingEvent
  | Dequeue PendingEvent
  | Execute nat payload
  | FreeData nat payload
  | Lock
  | Unlock
  | DequeueEmpty
  | Suspend
  | Sleep nat

text \<open>
  A call returns (\<open>Normal\<close>), leaves by an exception (\<open>Thrown\<close>), or runs into undefined
  behaviour (\<open>Undefined\<close>). \<open>StillLooping\<close> is the value of a loop that has not left after
  the iterations it was given.
\<close>

datatype outcome = Normal | Thrown exn | Undefined | StillLooping

record Context =
  handlerBlocks :: "Path \<rightharpoonup> Handler list"
  handlerContext :: "HandlerContext option"
  mailbox :: "PendingEvent list"
  executor :: bool
  mutexLocked :: bool
  trace :: "action list"

subsection \<open>\<^verbatim>\<open>Context::super\<close>\<close>

definition eraseAt :: "nat \<Rightarrow> 'a list \<Rightarrow> 'a list" where
  "eraseAt i xs = take i xs @ drop (Suc i) xs"

text \<open>
  The \<^verbatim>\<open>while ((*it)->isDestroyed())\<close> loop of \<^verbatim>\<open>super\<close>, started at position \<open>i\<close>. A
  destroyed handler at the front is removed by \<^verbatim>\<open>pop_front\<close> and the search ends without a
  handler; any other destroyed handler is erased and the search moves one position down.
\<close>

fun findAlive :: "Handler list \<Rightarrow> nat \<Rightarrow> Handler list \<times> nat option" where
  "findAlive hs 0 = (if isDestroyed (hs ! 0) then (tl hs, None) else (hs, Some 0))"
| "findAlive hs (Suc i) =
     (if isDestroyed (hs ! Suc i) then findAlive (eraseAt (Suc i) hs) i else (hs, Some (Suc i)))"

text \<open>
  \<^verbatim>\<open>super\<close> and the execution of a handler function call each other. The statement
  \<^verbatim>\<open>auto it = --handlerContext->handler\<close> moves the stored cursor itself one node down before
  the loop runs. When the loop then finds a live handler the cursor is assigned again; when
  it reaches the front without one, the function returns and the stored cursor is left on a
  node that the loop has erased.
\<close>

function super :: "Context \<Rightarrow> outcome \<times> Context"
  and execute :: "hcmd list \<Rightarrow> payload \<Rightarrow> Context \<Rightarrow> outcome \<times> Context" where
  "super ctx =
     (case handlerContext ctx of
        None \<Rightarrow> (Undefined, ctx)
      | Some hc \<Rightarrow>
         (case handlerBlocks ctx (handlerBlock hc) of
            None \<Rightarrow> (Undefined, ctx)
          | Some hs \<Rightarrow>
             (case handler hc of
                Dangling \<Rightarrow> (Undefined, ctx)
              | Pos k \<Rightarrow>
                  if length hs < k then (Undefined, ctx)
                  else if k = 0 then (Normal, ctx)
                  else (case findAlive hs (k - 1) of
                          (hs', None) \<Rightarrow>
                            (Normal,
                             ctx\<lparr>handlerBlocks := (handlerBlocks ctx)(handlerBlock hc \<mapsto> hs'),
                                 handlerContext := Some (hc\<lparr>handler := Dangling\<rparr>)\<rparr>)
                        | (hs', Some j) \<Rightarrow>
                            execute (body (hs' ! j)) (hdata hc)
                              (ctx\<lparr>handlerBlocks := (handlerBlocks ctx)(handlerBlock hc \<mapsto> hs'),
                                   handlerContext := Some (hc\<lparr>handler := Pos j\<rparr>),
                                   trace := trace ctx @ [Execute (hid (hs' ! j)) (hdata hc)]\<rparr>)))))"
| "execute [] d ctx = (Normal, ctx)"
| "execute (CallSuper # cs) d ctx =
     (case super ctx of
        (Normal, ctx') \<Rightarrow> execute cs d ctx'
      | r \<Rightarrow> r)"
| "execute (ThrowEventFired # cs) d ctx = (Thrown (EventFired d), ctx)"
| "execute (ThrowUser n # cs) d ctx = (Thrown (UserException n), ctx)"
  by pat_completeness auto

text \<open>Termination: every handler that \<^verbatim>\<open>super\<close> executes lies strictly below the cursor.\<close>

definition cursorPos :: "Context \<Rightarrow> nat" where
  "cursorPos ctx = (case handlerContext ctx of None \<Rightarrow> 0
     | Some hc \<Rightarrow> (case handler hc of Pos k \<Rightarrow> k | Dangling \<Rightarrow> 0))"

lemma findAlive_le: "findAlive hs i = (hs', Some j) \<Longrightarrow> j \<le> i"
  by (induction hs i rule: findAlive.induct) (auto split: if_splits)

lemma cursorPos_mono:
  "super_execute_dom (Inl ctx) \<Longrightarrow> cursorPos (snd (super ctx)) \<le> cursorPos ctx"
  "super_execute_dom (Inr (cs, d, ctx)) \<Longrightarrow> cursorPos (snd (execute cs d ctx)) \<le> cursorPos ctx"
proof (induction ctx and cs d ctx rule: super_execute.pinduct)
  case (1 ctx)
  show ?case
  proof (cases "handlerContext ctx")
    case None
    with 1(1) show ?thesis by (simp add: super.psimps)
  next
    case (Some hc)
    show ?thesis
    proof (cases "handlerBlocks ctx (handlerBlock hc)")
      case None
      with Some 1(1) show ?thesis by (simp add: super.psimps)
    next
      case hs: (Some hs)
      show ?thesis
      proof (cases "handler hc")
        case Dangling
        with Some hs 1(1) show ?thesis by (simp add: super.psimps)
      next
        case (Pos k)
        show ?thesis
        proof (cases "length hs < k \<or> k = 0")
          case True
          with Some hs Pos 1(1) show ?thesis by (auto simp: super.psimps)
        next
          case False
          obtain hs' r where fa: "findAlive hs (k - 1) = (hs', r)" by force
          show ?thesis
          proof (cases r)
            case None
            with Some hs Pos False fa 1(1) show ?thesis
              by (simp add: super.psimps cursorPos_def)
          next
            case (Some j)
            from fa Some have jk: "j \<le> k - 1" by (auto dest: findAlive_le)
            have "cursorPos (snd (execute (body (hs' ! j)) (hdata hc)
                    (ctx\<lparr>handlerBlocks := (handlerBlocks ctx)(handlerBlock hc \<mapsto> hs'),
                         handlerContext := Some (hc\<lparr>handler := Pos j\<rparr>),
                         trace := trace ctx @ [Execute (hid (hs' ! j)) (hdata hc)]\<rparr>))) \<le> j"
              using 1(2)[OF \<open>handlerContext ctx = Some hc\<close> hs Pos _ _ fa[symmetric] Some] False
              by (simp add: cursorPos_def)
            with \<open>handlerContext ctx = Some hc\<close> hs Pos False fa Some jk 1(1) show ?thesis
              by (simp add: super.psimps cursorPos_def)
          qed
        qed
      qed
    qed
  qed
next
  case (2 d ctx)
  then show ?case by (simp add: execute.psimps)
next
  case (3 cs d ctx)
  then show ?case
    by (auto simp: execute.psimps split: prod.splits outcome.splits)
next
  case (4 cs d ctx)
  then show ?case by (simp add: execute.psimps)
next
  case (5 n cs d ctx)
  then show ?case by (simp add: execute.psimps)
qed

termination super
proof (relation "measures [\<lambda>x. case x of Inl ctx \<Rightarrow> cursorPos ctx | Inr (cs, d, ctx) \<Rightarrow> cursorPos ctx,
                           \<lambda>x. case x of Inl ctx \<Rightarrow> 0 | Inr (cs, d, ctx) \<Rightarrow> Suc (length cs)]",
       goal_cases)
  case 1
  show ?case by simp
next
  case (2 ctx hc hs k hs' r j)
  then show ?case by (auto simp: cursorPos_def dest!: findAlive_le[OF sym])
next
  case (3 cs d ctx)
  then show ?case by simp
next
  case (4 cs d ctx r ctx')
  from 4 have "cursorPos ctx' \<le> cursorPos ctx"
    using cursorPos_mono(1)[of ctx] by (metis snd_conv)
  then show ?case by (cases "cursorPos ctx' = cursorPos ctx") simp_all
qed

declare super.simps [simp del]

subsection \<open>\<^verbatim>\<open>Context::handleEvent\<close> and \<^verbatim>\<open>Context::bind\<close>\<close>

text \<open>The loop that pops destroyed handlers off the back of a block.\<close>

function popDestroyed :: "Handler list \<Rightarrow> Handler list" where
  "popDestroyed hs =
     (if hs \<noteq> [] \<and> isDestroyed (last hs) then popDestroyed (butlast hs) else hs)"
  by pat_completeness auto
termination
  by (relation "measure length") auto

declare popDestroyed.simps [simp del]

text \<open>
  \<^verbatim>\<open>handleEvent\<close> resets the handler context only after \<^verbatim>\<open>super\<close> has returned; when a
  handler throws, the handler context of the dispatch stays in place.
\<close>

definition handleEvent :: "PendingEvent \<Rightarrow> Context \<Rightarrow> outcome \<times> Context" where
  "handleEvent event ctx =
     (case handlerBlocks ctx (path event) of
        None \<Rightarrow> (Normal, ctx)
      | Some hs \<Rightarrow>
         (let block = popDestroyed hs in
          if block = [] then
            (Normal, ctx\<lparr>handlerBlocks := (handlerBlocks ctx)(path event := None)\<rparr>)
          else
            (case super (ctx\<lparr>handlerBlocks := (handlerBlocks ctx)(path event \<mapsto> block),
                             handlerContext := Some \<lparr>handlerBlock = path event,
                                                     handler = Pos (length block),
                                                     hdata = data event\<rparr>\<rparr>) of
               (Normal, ctx') \<Rightarrow> (Normal, ctx'\<lparr>handlerContext := None\<rparr>)
             | r \<Rightarrow> r)))"


subsection \<open>\<^verbatim>\<open>Context::process\<close>\<close>

text \<open>
  Dispatch touches the handler blocks, the handler context and the trace only; the mailbox
  and the control block stay as they are. The loop of \<^verbatim>\<open>process\<close> terminates for that
  reason: every round takes one event out of the mailbox.
\<close>

definition frameOf :: "Context \<Rightarrow> Context \<Rightarrow> bool" where
  "frameOf ctx ctx' \<longleftrightarrow>
     mailbox ctx' = mailbox ctx \<and> executor ctx' = executor ctx \<and> mutexLocked ctx' = mutexLocked ctx"

lemma super_execute_frame:
  "frameOf ctx (snd (super ctx))"
  "frameOf ctx (snd (execute cs d ctx))"
proof (induction ctx and cs d ctx rule: super_execute.induct)
  case (1 ctx)
  then show ?case
    by (subst super.simps) (auto simp: frameOf_def split: option.splits cursor.splits prod.splits)
next
  case (3 cs d ctx)
  then show ?case by (auto simp: frameOf_def split: prod.splits outcome.splits)
qed (simp_all add: frameOf_def)

lemma handleEvent_frame: "frameOf ctx (snd (handleEvent event ctx))"
proof (cases "handlerBlocks ctx (path event)")
  case None
  then show ?thesis by (simp add: handleEvent_def frameOf_def)
next
  case (Some hs)
  let ?c = "ctx\<lparr>handlerBlocks := (handlerBlocks ctx)(path event \<mapsto> popDestroyed hs),
                 handlerContext := Some \<lparr>handlerBlock = path event,
                                         handler = Pos (length (popDestroyed hs)),
                                         hdata = data event\<rparr>\<rparr>"
  obtain r c' where sc: "super ?c = (r, c')" by force
  have "frameOf ?c (snd (super ?c))" by (rule super_execute_frame(1))
  with sc have "frameOf ctx c'" by (simp add: frameOf_def)
  with Some sc show ?thesis
    by (cases r) (simp_all add: handleEvent_def frameOf_def Let_def)
qed

text \<open>
  The \<^verbatim>\<open>catch (...)\<close> clause frees the payload and throws again; the normal path frees it
  after the \<^verbatim>\<open>try\<close> block. Undefined behaviour is neither.
\<close>

function process :: "Context \<Rightarrow> outcome \<times> Context" where
  "process ctx =
     (case mailbox ctx of
        [] \<Rightarrow> (Normal, ctx)
      | event # rest \<Rightarrow>
         (case handleEvent event (ctx\<lparr>mailbox := rest, trace := trace ctx @ [Dequeue event]\<rparr>) of
            (Normal, ctx') \<Rightarrow>
              process (ctx'\<lparr>trace := trace ctx' @ [FreeData (freeData event) (data event)]\<rparr>)
          | (Thrown e, ctx') \<Rightarrow>
              (Thrown e, ctx'\<lparr>trace := trace ctx' @ [FreeData (freeData event) (data event)]\<rparr>)
          | r \<Rightarrow> r))"
  by pat_completeness auto
termination
proof (relation "measure (\<lambda>ctx. length (mailbox ctx))", goal_cases)
  case 1
  show ?case by simp
next
  case (2 ctx event rest r ctx')
  then show ?case
    using handleEvent_frame[of "ctx\<lparr>mailbox := rest, trace := trace ctx @ [Dequeue event]\<rparr>" event]
    by (simp add: frameOf_def) (metis snd_conv select_convs(3) length_Cons lessI)
qed

declare process.simps [simp del]

subsection \<open>\<^verbatim>\<open>Context::yield\<close> and \<^verbatim>\<open>Event::await\<close>\<close>

text \<open>
  \<^verbatim>\<open>yield\<close> is \<^verbatim>\<open>while (true)\<close>. The model runs one iteration of the loop for each element
  of a list that also says what the senders do meanwhile. The mailbox is a queue of its own
  (\<^verbatim>\<open>process\<close> dequeues without the mutex), so a sender can enqueue at any moment: after
  the drain and before the fiber takes the mutex, after the lock and before the second look
  at the mailbox, after a second look that found nothing and before \<^verbatim>\<open>suspend\<close> has
  released the mutex, and later (while the fiber is suspended, asleep, or busy with the event
  it found). When the list is used up the loop is still running.

  \<^verbatim>\<open>Executor::suspend\<close> (executor.hpp) is called with the mutex held; it releases the mutex
  and returns when the fiber has been enabled again.
\<close>

record Tick =
  beforeLock :: "PendingEvent list"
  beforeCheck :: "PendingEvent list"
  beforeSuspend :: "PendingEvent list"
  afterCheck :: "PendingEvent list"

fun yield :: "Tick list \<Rightarrow> Context \<Rightarrow> outcome \<times> Context" where
  "yield [] ctx = (StillLooping, ctx)"
| "yield (t # ts) ctx =
     (case process ctx of
        (Normal, c1) \<Rightarrow>
          if executor c1 then
            (let c2 = c1\<lparr>mailbox := mailbox c1 @ beforeLock t @ beforeCheck t, mutexLocked := True,
                        trace := trace c1 @ map Enqueue (beforeLock t) @ [Lock]
                                 @ map Enqueue (beforeCheck t)\<rparr> in
             case mailbox c2 of
               event # rest \<Rightarrow>
                 (case handleEvent event
                         (c2\<lparr>mailbox := rest, mutexLocked := False,
                             trace := trace c2 @ [Dequeue event, Unlock]\<rparr>) of
                    (Normal, c3) \<Rightarrow>
                      yield ts (c3\<lparr>mailbox := mailbox c3 @ beforeSuspend t @ afterCheck t,
                                   trace := trace c3 @ [FreeData (freeData event) (data event)]
                                            @ map Enqueue (beforeSuspend t @ afterCheck t)\<rparr>)
                  | (Thrown e, c3) \<Rightarrow>
                      (Thrown e, c3\<lparr>trace := trace c3 @ [FreeData (freeData event) (data event)]\<rparr>)
                  | r \<Rightarrow> r)
             | [] \<Rightarrow>
                 yield ts (c2\<lparr>mailbox := beforeSuspend t @ afterCheck t, mutexLocked := False,
                              trace := trace c2 @ [DequeueEmpty] @ map Enqueue (beforeSuspend t)
                                       @ [Suspend] @ map Enqueue (afterCheck t)\<rparr>))
          else
            yield ts (c1\<lparr>mailbox := mailbox c1 @ beforeLock t @ beforeCheck t @ beforeSuspend t
                                    @ afterCheck t,
                         trace := trace c1
                                  @ map Enqueue (beforeLock t @ beforeCheck t @ beforeSuspend t)
                                  @ [Sleep 1] @ map Enqueue (afterCheck t)\<rparr>)
      | r \<Rightarrow> r)"




subsection \<open>Reading a trace\<close>

text \<open>The part of the trace that a call has added.\<close>

definition newTrace :: "Context \<Rightarrow> Context \<Rightarrow> action list" where
  "newTrace ctx ctx' = drop (length (trace ctx)) (trace ctx')"

fun freed :: "action list \<Rightarrow> (nat \<times> payload) list" where
  "freed [] = []"
| "freed (FreeData f d # tr) = (f, d) # freed tr"
| "freed (a # tr) = freed tr"

fun dequeued :: "action list \<Rightarrow> PendingEvent list" where
  "dequeued [] = []"
| "dequeued (Dequeue e # tr) = e # dequeued tr"
| "dequeued (a # tr) = dequeued tr"

fun executed :: "action list \<Rightarrow> nat list" where
  "executed [] = []"
| "executed (Execute h d # tr) = h # executed tr"
| "executed (a # tr) = executed tr"

fun isExecute :: "action \<Rightarrow> bool" where
  "isExecute (Execute h d) = True"
| "isExecute a = False"

text \<open>
  The handshake of a bound fiber as an automaton over the trace. The mutex is free, held,
  held with an event just taken from the mailbox, or held after a look at the mailbox that
  found it empty; the second component is the content of the mailbox, to which senders may
  add at any time. Handlers and \<^verbatim>\<open>freeData\<close> run with the mutex free only, the mutex is
  released by \<^verbatim>\<open>unlock\<close> only after a successful second look, a look that finds nothing
  happens on an empty mailbox, and the fiber suspends only while it holds the mutex and after
  such a look.
\<close>

datatype mutexState = Free | Held | HeldWithEvent | HeldEmpty

fun handshakeStep :: "mutexState \<times> PendingEvent list \<Rightarrow> action
    \<Rightarrow> (mutexState \<times> PendingEvent list) option" where
  "handshakeStep (m, q) (Enqueue e) = Some (m, q @ [e])"
| "handshakeStep (m, q) (Dequeue e) =
     (case q of [] \<Rightarrow> None
      | e' # q' \<Rightarrow> if e' \<noteq> e then None
                   else if m = Free then Some (Free, q')
                   else if m = Held then Some (HeldWithEvent, q')
                   else None)"
| "handshakeStep (m, q) (Execute h d) = (if m = Free then Some (m, q) else None)"
| "handshakeStep (m, q) (FreeData f d) = (if m = Free then Some (m, q) else None)"
| "handshakeStep (m, q) Lock = (if m = Free then Some (Held, q) else None)"
| "handshakeStep (m, q) Unlock = (if m = HeldWithEvent then Some (Free, q) else None)"
| "handshakeStep (m, q) DequeueEmpty = (if m = Held \<and> q = [] then Some (HeldEmpty, q) else None)"
| "handshakeStep (m, q) Suspend = (if m = HeldEmpty then Some (Free, q) else None)"
| "handshakeStep (m, q) (Sleep n) = (if m = Free then Some (m, q) else None)"

fun handshake :: "mutexState \<times> PendingEvent list \<Rightarrow> action list
    \<Rightarrow> (mutexState \<times> PendingEvent list) option" where
  "handshake s [] = Some s"
| "handshake s (a # tr) = (case handshakeStep s a of None \<Rightarrow> None | Some s' \<Rightarrow> handshake s' tr)"

text \<open>
  Every dequeued event is matched by one call of its \<^verbatim>\<open>freeData\<close> on its data, in the order
  of the dequeues.
\<close>

definition balanced :: "action list \<Rightarrow> bool" where
  "balanced t \<longleftrightarrow> freed t = map (\<lambda>e. (freeData e, data e)) (dequeued t)"

fun isWork :: "action \<Rightarrow> bool" where
  "isWork (Dequeue e) = True"
| "isWork (Execute h d) = True"
| "isWork (FreeData f d) = True"
| "isWork a = False"

fun isSleep :: "action \<Rightarrow> bool" where
  "isSleep (Sleep n) = True"
| "isSleep a = False"

fun isSync :: "action \<Rightarrow> bool" where
  "isSync Lock = True"
| "isSync Unlock = True"
| "isSync Suspend = True"
| "isSync (Sleep n) = True"
| "isSync a = False"

text \<open>
  A stretch of trace between two contexts that the handshake automaton accepts, and what one
  run of the loop of \<^verbatim>\<open>yield\<close> over \<open>n\<close> iterations leaves behind.
\<close>

definition segment :: "Context \<Rightarrow> action list \<Rightarrow> Context \<Rightarrow> bool" where
  "segment ctx seg c \<longleftrightarrow>
     trace c = trace ctx @ seg
     \<and> handshake (Free, mailbox ctx) seg = Some (Free, mailbox c)
     \<and> executor c = executor ctx"

definition yieldPost :: "nat \<Rightarrow> Context \<Rightarrow> outcome \<Rightarrow> Context \<Rightarrow> bool" where
  "yieldPost n ctx r c \<longleftrightarrow>
     segment ctx (newTrace ctx c) c
     \<and> (r \<noteq> Undefined \<longrightarrow> balanced (newTrace ctx c))
     \<and> r \<noteq> Normal
     \<and> (\<not> executor ctx \<longrightarrow>
          (\<exists>k\<le>n. filter isSync (newTrace ctx c) = replicate k (Sleep 1)
                 \<and> (r = StillLooping \<longrightarrow> k = n)))
     \<and> (executor ctx \<longrightarrow>
          filter isSleep (newTrace ctx c) = []
          \<and> (r = StillLooping \<longrightarrow> length (filter (\<lambda>a. a = Lock) (newTrace ctx c)) = n))"

subsection \<open>Predicates on handler blocks\<close>

text \<open>
  What the loop of \<^verbatim>\<open>super\<close> leaves of the handlers below the cursor: the destroyed ones
  at their upper end are gone.
\<close>

definition pruneBelow :: "Handler list \<Rightarrow> Handler list" where
  "pruneBelow below = rev (dropWhile isDestroyed (rev below))"

text \<open>No handler function of the context throws.\<close>

definition neverThrows :: "Context \<Rightarrow> bool" where
  "neverThrows ctx \<longleftrightarrow>
     (\<forall>p hs. handlerBlocks ctx p = Some hs \<longrightarrow> (\<forall>h\<in>set hs. set (body h) \<subseteq> {CallSuper}))"

text \<open>
  A block that was obtained from another by erasing destroyed handlers only, and a context
  whose handler blocks were obtained in that way, the block of path \<open>p\<close> alone being touched.
\<close>

definition live :: "Handler \<Rightarrow> bool" where
  "live h \<longleftrightarrow> \<not> isDestroyed h"

definition prunedFrom :: "Handler list \<Rightarrow> Handler list \<Rightarrow> bool" where
  "prunedFrom b hs \<longleftrightarrow> subseq b hs \<and> filter live b = filter live hs"

definition keeps :: "Path \<Rightarrow> Context \<Rightarrow> Context \<Rightarrow> bool" where
  "keeps p ctx c \<longleftrightarrow>
     (\<forall>q. q \<noteq> p \<longrightarrow> handlerBlocks c q = handlerBlocks ctx q)
     \<and> (case handlerBlocks ctx p of
           None \<Rightarrow> handlerBlocks c p = None
         | Some hs \<Rightarrow> (\<exists>b. handlerBlocks c p = Some b \<and> prunedFrom b hs))
     \<and> (\<forall>hc. handlerContext ctx = Some hc \<and> handlerBlock hc = p \<longrightarrow>
            (\<exists>hc'. handlerContext c = Some hc' \<and> handlerBlock hc' = p))"





section \<open>The system: starting fibers, scheduling, and the running counter\<close>

text \<open>
  \<^verbatim>\<open>System\<close> as in system.hpp and system.cpp. Control blocks live in a heap, a list in which
  the address of a block is its index; a block's mailbox has the address of its block. An
  executor is the list of the blocks it was handed (\<^verbatim>\<open>Executor::execute\<close> and
  \<^verbatim>\<open>Executor::schedule\<close> are declared in executor.hpp). The main fiber's mailbox receives what
  \<^verbatim>\<open>mainFiber().emit\<close> sends.
\<close>

datatype FiberRef = LocalFiberRef nat | DeadLetterFiberRef

record ControlBlock =
  fiber :: nat
  cbMailbox :: nat
  finished :: bool

record System =
  shuttingDown :: bool
  executors :: "nat list list"
  controlBlocks :: "ControlBlock list"
  running :: "64 word"
  roundRobinCounter :: "64 word"
  allFibersFinished :: Path
  mainMailbox :: "PendingEvent list"

text \<open>
  The constructor \<^verbatim>\<open>System(uint32_t macrothreads)\<close>; the path of the event
  \<^verbatim>\<open>allFibersFinished_\<close> comes from \<^verbatim>\<open>newEvent\<close>.
\<close>

definition newSystem :: "nat \<Rightarrow> Path \<Rightarrow> System" where
  "newSystem macrothreads p =
     \<lparr>shuttingDown = False, executors = replicate macrothreads [], controlBlocks = [],
      running = 0, roundRobinCounter = 0, allFibersFinished = p, mainMailbox = []\<rparr>"

text \<open>
  \<^verbatim>\<open>System::run\<close> (system.hpp). The argument \<open>draw\<close> is the value that
  \<^verbatim>\<open>chooseExecutor(System::random)\<close> returns, a draw from the uniform distribution on
  \<^verbatim>\<open>[0, executors.size() - 1]\<close>. Indexing the vector of executors outside its range has no
  defined behaviour: the result is \<open>None\<close>.
\<close>

definition run :: "nat \<Rightarrow> nat \<Rightarrow> System \<Rightarrow> (FiberRef \<times> System) option" where
  "run fiberImpl draw s =
     (if \<not> shuttingDown s then
        (let address = length (controlBlocks s);
             block = \<lparr>fiber = fiberImpl, cbMailbox = address, finished = False\<rparr>
         in if draw < length (executors s) then
              Some (LocalFiberRef (cbMailbox block),
                    s\<lparr>controlBlocks := controlBlocks s @ [block],
                      executors := (executors s)[draw := executors s ! draw @ [address]]\<rparr>)
            else None)
      else Some (DeadLetterFiberRef, s))"

definition shutdown :: "System \<Rightarrow> System" where
  "shutdown s = s\<lparr>shuttingDown := True\<rparr>"

text \<open>
  \<^verbatim>\<open>System::schedule\<close> (system.cpp): \<^verbatim>\<open>atomic_fetch_add\<close> on the 64-bit counter, then the
  old value modulo the number of executors. With no executor the modulus is zero.
\<close>

definition schedule :: "nat \<Rightarrow> System \<Rightarrow> System option" where
  "schedule controlBlock s =
     (let i = roundRobinCounter s;
          s' = s\<lparr>roundRobinCounter := i + 1\<rparr>
      in if executors s = [] then None
         else Some (s'\<lparr>executors :=
                (executors s)[unat i mod length (executors s) :=
                   executors s ! (unat i mod length (executors s)) @ [controlBlock]]\<rparr>))"

text \<open>
  \<^verbatim>\<open>System::fiberFinished\<close>: \<^verbatim>\<open>atomic_fetch_sub\<close> returns the value before the decrement.
  \<^verbatim>\<open>emit\<close> of a \<^verbatim>\<open>Unit\<close> event boxes an empty value.
\<close>

definition fiberFinished :: "System \<Rightarrow> System" where
  "fiberFinished s =
     (let old = running s;
          s' = s\<lparr>running := old - 1\<rparr>
      in if old = 1 then
           s'\<lparr>mainMailbox := mainMailbox s' @ [\<lparr>path = allFibersFinished s', data = 0, freeData = 0\<rparr>]\<rparr>
         else s')"

text \<open>
  Modelled from the spec: the increment of the running counter when a fiber starts
  (``bump the running-fiber counter'' in \<^verbatim>\<open>run\<close>). The \<^verbatim>\<open>run\<close> of system.hpp has no
  counter; the one that goes with system.cpp is not among the sources.
\<close>

definition fiberStarted :: "System \<Rightarrow> System" where
  "fiberStarted s = s\<lparr>running := running s + 1\<rparr>"

text \<open>A lifetime of the system, as far as the counter goes: fibers start and finish.\<close>

datatype lifeEvent = Started | Finished

fun lifetime :: "lifeEvent list \<Rightarrow> System \<Rightarrow> System" where
  "lifetime [] s = s"
| "lifetime (Started # es) s = lifetime es (fiberStarted s)"
| "lifetime (Finished # es) s = lifetime es (fiberFinished s)"

text \<open>How often \<^verbatim>\<open>allFibersFinished\<close> has been emitted to the main fiber.\<close>

definition fired :: "System \<Rightarrow> nat" where
  "fired s = length (filter (\<lambda>e. path e = allFibersFinished s) (mainMailbox s))"

text \<open>Calls of \<^verbatim>\<open>run\<close> one after the other, each with its fiber and its draw.\<close>

fun runAll :: "(nat \<times> nat) list \<Rightarrow> System \<Rightarrow> (FiberRef list \<times> System) option" where
  "runAll [] s = Some ([], s)"
| "runAll ((f, draw) # rs) s =
     (case run f draw s of
        None \<Rightarrow> None
      | Some (r, s') \<Rightarrow>
          (case runAll rs s' of None \<Rightarrow> None | Some (refs, s'') \<Rightarrow> Some (r # refs, s'')))"

section \<open>Concrete inputs\<close>

text \<open>Small contexts, events and systems on which the theorems below are instantiated.\<close>

definition evA :: PendingEvent where "evA = \<lparr>path = ''a'', data = 7, freeData = 3\<rparr>"
definition ctxA :: Context where
  "ctxA = \<lparr>handlerBlocks = [''a'' \<mapsto> [\<lparr>hid = 1, isDestroyed = False, body = []\<rparr>, \<lparr>hid = 2, isDestroyed = True, body = []\<rparr>]],
     handlerContext = None, mailbox = [], executor = True, mutexLocked = False, trace = []\<rparr>"

definition sys2 :: System where "sys2 = newSystem 2 ''allFibersFinished''"

definition ctxT :: Context where
  "ctxT = \<lparr>handlerBlocks = [''a'' \<mapsto> [\<lparr>hid = 1, isDestroyed = False, body = [ThrowUser 9]\<rparr>]],
     handlerContext = None, mailbox = [evA, evA\<lparr>data := 8\<rparr>], executor = True,
     mutexLocked = False, trace = []\<rparr>"

definition tickRace :: Tick where
  "tickRace = \<lparr>beforeLock = [evA], beforeCheck = [], beforeSuspend = [], afterCheck = []\<rparr>"
definition tickIdle :: Tick where
  "tickIdle = \<lparr>beforeLock = [], beforeCheck = [], beforeSuspend = [], afterCheck = []\<rparr>"
definition tickLate :: Tick where
  "tickLate = \<lparr>beforeLock = [], beforeCheck = [], beforeSuspend = [evA], afterCheck = []\<rparr>"

definition ctxD :: Context where
  "ctxD = \<lparr>handlerBlocks = [''a'' \<mapsto> [\<lparr>hid = 1, isDestroyed = True, body = []\<rparr>,
                                        \<lparr>hid = 2, isDestroyed = False, body = [CallSuper, CallSuper]\<rparr>]],
     handlerContext = None, mailbox = [], executor = True, mutexLocked = False, trace = []\<rparr>"

definition ctxL :: Context where
  "ctxL = \<lparr>handlerBlocks = [''a'' \<mapsto> [\<lparr>hid = 1, isDestroyed = False, body = []\<rparr>,
                                        \<lparr>hid = 2, isDestroyed = False, body = [CallSuper, CallSuper]\<rparr>]],
     handlerContext = None, mailbox = [], executor = True, mutexLocked = False, trace = []\<rparr>"


section \<open>Properties of event dispatch\<close>

subsection \<open>Auxiliary facts\<close>

lemma rev_snoc_last: "hs \<noteq> [] \<Longrightarrow> rev hs = last hs # rev (butlast hs)"
  by (induction hs rule: rev_induct) simp_all

lemma popDestroyed_rev: "popDestroyed hs = rev (dropWhile isDestroyed (rev hs))"
proof (induction hs rule: popDestroyed.induct)
  case (1 hs)
  show ?case
  proof (cases "hs \<noteq> [] \<and> isDestroyed (last hs)")
    case True
    then have "dropWhile isDestroyed (rev hs) = dropWhile isDestroyed (rev (butlast hs))"
      by (subst rev_snoc_last) simp_all
    moreover have "popDestroyed hs = popDestroyed (butlast hs)"
      using True by (subst popDestroyed.simps) simp
    ultimately show ?thesis using 1 True by simp
  next
    case False
    then have eq: "popDestroyed hs = hs" by (subst popDestroyed.simps) auto
    show ?thesis
    proof (cases "hs = []")
      case True
      with eq show ?thesis by simp
    next
      case ne: False
      with False have "dropWhile isDestroyed (rev hs) = rev hs"
        by (subst rev_snoc_last, simp, subst (2) rev_snoc_last) simp_all
      with eq show ?thesis by simp
    qed
  qed
qed

lemma popDestroyed_Nil: "popDestroyed hs = [] \<longleftrightarrow> (\<forall>h\<in>set hs. isDestroyed h)"
  by (simp add: popDestroyed_rev dropWhile_eq_Nil_conv)

lemma popDestroyed_last: "popDestroyed hs \<noteq> [] \<Longrightarrow> \<not> isDestroyed (last (popDestroyed hs))"
  by (subst (asm) popDestroyed_rev, subst popDestroyed_rev)
     (metis hd_dropWhile last_rev rev_is_Nil_conv)

lemma popDestroyed_prefix: "prefix (popDestroyed hs) hs"
  by (metis popDestroyed_rev prefix_def rev_append rev_rev_ident takeWhile_dropWhile_id)

lemma super_execute_trace:
  "\<exists>t. trace (snd (super ctx)) = trace ctx @ t \<and> list_all isExecute t"
  "\<exists>t. trace (snd (execute cs d ctx)) = trace ctx @ t \<and> list_all isExecute t"
proof (induction ctx and cs d ctx rule: super_execute.induct)
  case (1 ctx)
  show ?case
  proof (cases "\<exists>hc hs k hs' j. handlerContext ctx = Some hc \<and> handlerBlocks ctx (handlerBlock hc) = Some hs
        \<and> handler hc = Pos k \<and> \<not> length hs < k \<and> k \<noteq> 0 \<and> findAlive hs (k - 1) = (hs', Some j)")
    case True
    then obtain hc hs k hs' j where h: "handlerContext ctx = Some hc"
      "handlerBlocks ctx (handlerBlock hc) = Some hs" "handler hc = Pos k" "\<not> length hs < k" "k \<noteq> 0"
      "findAlive hs (k - 1) = (hs', Some j)" by blast
    from 1[OF h(1-5) h(6)[symmetric] refl]
    obtain t where "trace (snd (execute (body (hs' ! j)) (hdata hc)
                (ctx\<lparr>handlerBlocks := (handlerBlocks ctx)(handlerBlock hc \<mapsto> hs'),
                      handlerContext := Some (hc\<lparr>handler := Pos j\<rparr>),
                      trace := trace ctx @ [Execute (hid (hs' ! j)) (hdata hc)]\<rparr>)))
          = (trace ctx @ [Execute (hid (hs' ! j)) (hdata hc)]) @ t" "list_all isExecute t"
      by auto
    then have "trace (snd (super ctx)) = trace ctx @ (Execute (hid (hs' ! j)) (hdata hc) # t)
        \<and> list_all isExecute (Execute (hid (hs' ! j)) (hdata hc) # t)"
      using h by (subst super.simps) simp
    then show ?thesis by blast
  next
    case False
    then have "trace (snd (super ctx)) = trace ctx"
      by (subst super.simps) (auto split: option.splits cursor.splits prod.splits)
    then show ?thesis by simp
  qed
next
  case (3 cs d ctx)
  show ?case
  proof (cases "super ctx")
    case (Pair r ctx')
    from 3(1) Pair obtain t1 where t1: "trace ctx' = trace ctx @ t1" "list_all isExecute t1" by auto
    show ?thesis
    proof (cases "r = Normal")
      case True
      from 3(2)[OF Pair[symmetric] True] obtain t2 where
        "trace (snd (execute cs d ctx')) = trace ctx' @ t2" "list_all isExecute t2" by auto
      with t1 Pair True have "trace (snd (execute (CallSuper # cs) d ctx)) = trace ctx @ (t1 @ t2)
          \<and> list_all isExecute (t1 @ t2)" by simp
      then show ?thesis by blast
    next
      case False
      with Pair t1 show ?thesis by (cases r) auto
    qed
  qed
qed simp_all

lemma findAlive_live: "\<not> isDestroyed (hs ! i) \<Longrightarrow> findAlive hs i = (hs, Some i)"
  by (cases i) simp_all

lemma handleEvent_trace:
  "\<exists>t. trace (snd (handleEvent event ctx)) = trace ctx @ t \<and> list_all isExecute t"
proof (cases "\<exists>hs. handlerBlocks ctx (path event) = Some hs \<and> popDestroyed hs \<noteq> []")
  case True
  then obtain hs where hs: "handlerBlocks ctx (path event) = Some hs" "popDestroyed hs \<noteq> []" by blast
  let ?c = "ctx\<lparr>handlerBlocks := (handlerBlocks ctx)(path event \<mapsto> popDestroyed hs),
                 handlerContext := Some \<lparr>handlerBlock = path event,
                                         handler = Pos (length (popDestroyed hs)),
                                         hdata = data event\<rparr>\<rparr>"
  from super_execute_trace(1)[of ?c] obtain t where
    "trace (snd (super ?c)) = trace ctx @ t" "list_all isExecute t" by auto
  with hs show ?thesis
    by (auto simp: handleEvent_def Let_def split: prod.splits outcome.splits)
next
  case False
  then show ?thesis by (auto simp: handleEvent_def Let_def split: option.splits)
qed

lemma handleEvent_first:
  assumes "handlerBlocks ctx (path event) = Some hs" "popDestroyed hs \<noteq> []"
  shows "\<exists>t. newTrace ctx (snd (handleEvent event ctx))
           = Execute (hid (last (popDestroyed hs))) (data event) # t"
proof -
  let ?b = "popDestroyed hs"
  let ?hc = "\<lparr>handlerBlock = path event, handler = Pos (length ?b), hdata = data event\<rparr>"
  let ?c = "ctx\<lparr>handlerBlocks := (handlerBlocks ctx)(path event \<mapsto> ?b), handlerContext := Some ?hc\<rparr>"
  let ?j = "length ?b - 1"
  let ?c' = "?c\<lparr>handlerBlocks := (handlerBlocks ?c)(handlerBlock ?hc \<mapsto> ?b),
                handlerContext := Some (?hc\<lparr>handler := Pos ?j\<rparr>),
                trace := trace ?c @ [Execute (hid (?b ! ?j)) (hdata ?hc)]\<rparr>"
  have lastj: "?b ! ?j = last ?b" using assms(2) by (simp add: last_conv_nth)
  then have "\<not> isDestroyed (?b ! ?j)" using popDestroyed_last[OF assms(2)] by simp
  then have fa: "findAlive ?b ?j = (?b, Some ?j)" by (rule findAlive_live)
  have sup: "super ?c = execute (body (?b ! ?j)) (hdata ?hc) ?c'"
    using assms(2) fa by (subst super.simps) simp
  from super_execute_trace(2)[of "body (?b ! ?j)" "hdata ?hc" ?c'] obtain t where
    "trace (snd (execute (body (?b ! ?j)) (hdata ?hc) ?c')) = trace ?c' @ t" by blast
  with sup lastj have "trace (snd (super ?c)) = trace ctx @ Execute (hid (last ?b)) (data event) # t"
    by simp
  with assms show ?thesis
    by (auto simp: handleEvent_def Let_def newTrace_def split: prod.splits outcome.splits)
qed

subsection \<open>Traces of \<^verbatim>\<open>process\<close> and \<^verbatim>\<open>yield\<close>\<close>

lemma freed_append: "freed (a @ b) = freed a @ freed b"
  by (induction a rule: freed.induct) simp_all

lemma dequeued_append: "dequeued (a @ b) = dequeued a @ dequeued b"
  by (induction a rule: dequeued.induct) simp_all

lemma executed_append: "executed (a @ b) = executed a @ executed b"
  by (induction a rule: executed.induct) simp_all

lemma isExecute_quiet: "list_all isExecute t \<Longrightarrow> freed t = [] \<and> dequeued t = []"
  by (induction t rule: freed.induct) simp_all

lemma super_execute_not_looping:
  "fst (super ctx) \<noteq> StillLooping"
  "fst (execute cs d ctx) \<noteq> StillLooping"
proof (induction ctx and cs d ctx rule: super_execute.induct)
  case (1 ctx)
  then show ?case
    by (subst super.simps) (auto split: option.splits cursor.splits prod.splits)
next
  case (3 cs d ctx)
  then show ?case by (auto split: prod.splits outcome.splits)
qed simp_all

lemma handleEvent_not_looping: "fst (handleEvent event ctx) \<noteq> StillLooping"
proof (cases "handlerBlocks ctx (path event)")
  case None
  then show ?thesis by (simp add: handleEvent_def)
next
  case (Some hs)
  let ?c = "ctx\<lparr>handlerBlocks := (handlerBlocks ctx)(path event \<mapsto> popDestroyed hs),
                 handlerContext := Some \<lparr>handlerBlock = path event,
                                         handler = Pos (length (popDestroyed hs)),
                                         hdata = data event\<rparr>\<rparr>"
  obtain r c' where sc: "super ?c = (r, c')" by force
  have "fst (super ?c) \<noteq> StillLooping" by (rule super_execute_not_looping(1))
  with sc Some show ?thesis
    by (cases r) (simp_all add: handleEvent_def Let_def)
qed

lemma process_trace:
  "\<exists>t. trace (snd (process ctx)) = trace ctx @ t
       \<and> (fst (process ctx) \<noteq> Undefined \<longrightarrow> balanced t)
       \<and> (fst (process ctx) = Normal \<longrightarrow> dequeued t = mailbox ctx)
       \<and> fst (process ctx) \<noteq> StillLooping"
proof (induction ctx rule: process.induct)
  case (1 ctx)
  show ?case
  proof (cases "mailbox ctx")
    case Nil
    then show ?thesis by (subst (1 2 3 4) process.simps) (simp add: balanced_def)
  next
    case (Cons event rest)
    let ?c = "ctx\<lparr>mailbox := rest, trace := trace ctx @ [Dequeue event]\<rparr>"
    obtain r c' where he: "handleEvent event ?c = (r, c')" by force
    from handleEvent_trace[of event ?c] he obtain t1 where
      t1: "trace c' = trace ctx @ Dequeue event # t1" "list_all isExecute t1" by auto
    from handleEvent_frame[of ?c event] he have mb: "mailbox c' = rest" by (simp add: frameOf_def)
    from handleEvent_not_looping[of event ?c] he have nl: "r \<noteq> StillLooping" by simp
    note q = isExecute_quiet[OF t1(2)]
    show ?thesis
    proof (cases r)
      case Normal
      let ?c2 = "c'\<lparr>trace := trace c' @ [FreeData (freeData event) (data event)]\<rparr>"
      from 1[OF Cons he[symmetric] Normal] obtain t2 where
        t2: "trace (snd (process ?c2)) = trace ?c2 @ t2"
            "fst (process ?c2) \<noteq> Undefined \<longrightarrow> balanced t2"
            "fst (process ?c2) = Normal \<longrightarrow> dequeued t2 = mailbox ?c2"
            "fst (process ?c2) \<noteq> StillLooping" by blast
      have pr: "process ctx = process ?c2"
        using Cons he Normal by (subst process.simps) simp
      let ?t = "Dequeue event # t1 @ FreeData (freeData event) (data event) # t2"
      have "trace (snd (process ctx)) = trace ctx @ ?t" using pr t2(1) t1(1) by simp
      moreover have "fst (process ctx) \<noteq> Undefined \<longrightarrow> balanced ?t"
        using pr t2(2) q by (simp add: balanced_def freed_append dequeued_append)
      moreover have "fst (process ctx) = Normal \<longrightarrow> dequeued ?t = mailbox ctx"
        using pr t2(3) q mb Cons by (simp add: dequeued_append)
      ultimately show ?thesis using pr t2(4) by auto
    next
      case (Thrown e)
      have pr: "process ctx = (Thrown e, c'\<lparr>trace := trace c' @ [FreeData (freeData event) (data event)]\<rparr>)"
        using Cons he Thrown by (subst process.simps) simp
      let ?t = "Dequeue event # t1 @ [FreeData (freeData event) (data event)]"
      have "trace (snd (process ctx)) = trace ctx @ ?t" using pr t1(1) by simp
      moreover have "balanced ?t" using q by (simp add: balanced_def freed_append dequeued_append)
      ultimately show ?thesis using pr by auto
    next
      case Undefined
      have pr: "process ctx = (Undefined, c')"
        using Cons he Undefined by (subst process.simps) simp
      then show ?thesis using t1(1) by simp
    next
      case StillLooping
      with nl show ?thesis by simp
    qed
  qed
qed

lemma newTrace_append: "trace c' = trace c @ t \<Longrightarrow> newTrace c c' = t"
  by (simp add: newTrace_def)

lemma process_frame:
  "executor (snd (process ctx)) = executor ctx \<and> mutexLocked (snd (process ctx)) = mutexLocked ctx"
proof (induction ctx rule: process.induct)
  case (1 ctx)
  show ?case
  proof (cases "mailbox ctx")
    case Nil
    then show ?thesis by (subst (1 2) process.simps) simp
  next
    case (Cons event rest)
    let ?c = "ctx\<lparr>mailbox := rest, trace := trace ctx @ [Dequeue event]\<rparr>"
    obtain r c' where he: "handleEvent event ?c = (r, c')" by force
    from handleEvent_frame[of ?c event] he
    have fr: "executor c' = executor ctx" "mutexLocked c' = mutexLocked ctx"
      by (simp_all add: frameOf_def)
    show ?thesis
    proof (cases r)
      case Normal
      have "process ctx = process (c'\<lparr>trace := trace c' @ [FreeData (freeData event) (data event)]\<rparr>)"
        using Cons he Normal by (subst process.simps) simp
      with 1[OF Cons he[symmetric] Normal] fr show ?thesis by simp
    next
      case (Thrown e)
      with Cons he fr show ?thesis by (subst (1 2) process.simps) simp
    next
      case Undefined
      with Cons he fr show ?thesis by (subst (1 2) process.simps) simp
    next
      case StillLooping
      with Cons he fr show ?thesis by (subst (1 2) process.simps) simp
    qed
  qed
qed

lemma handshake_append:
  "handshake s (a @ b) = (case handshake s a of None \<Rightarrow> None | Some s' \<Rightarrow> handshake s' b)"
  by (induction a arbitrary: s) (auto split: option.splits)

lemma handshake_executes: "list_all isExecute t \<Longrightarrow> handshake (Free, q) t = Some (Free, q)"
  by (induction t rule: freed.induct) simp_all

lemma handshake_enqueues: "handshake (m, q) (map Enqueue es) = Some (m, q @ es)"
  by (induction es arbitrary: q) simp_all

lemma process_handshake:
  "handshake (Free, mailbox ctx) (newTrace ctx (snd (process ctx)))
     = Some (Free, mailbox (snd (process ctx)))"
proof (induction ctx rule: process.induct)
  case (1 ctx)
  show ?case
  proof (cases "mailbox ctx")
    case Nil
    then show ?thesis by (subst (1 2) process.simps) (simp add: newTrace_def)
  next
    case (Cons event rest)
    let ?c = "ctx\<lparr>mailbox := rest, trace := trace ctx @ [Dequeue event]\<rparr>"
    obtain r c' where he: "handleEvent event ?c = (r, c')" by force
    from handleEvent_trace[of event ?c] he obtain t1 where
      t1: "trace c' = trace ctx @ Dequeue event # t1" "list_all isExecute t1" by auto
    from handleEvent_frame[of ?c event] he have mb: "mailbox c' = rest" by (simp add: frameOf_def)
    note hx = handshake_executes[OF t1(2), of rest]
    show ?thesis
    proof (cases r)
      case Normal
      let ?c2 = "c'\<lparr>trace := trace c' @ [FreeData (freeData event) (data event)]\<rparr>"
      have pr: "process ctx = process ?c2"
        using Cons he Normal by (subst process.simps) simp
      from process_trace[of ?c2] obtain t2 where t2: "trace (snd (process ?c2)) = trace ?c2 @ t2"
        by blast
      then have n2: "newTrace ?c2 (snd (process ?c2)) = t2" by (rule newTrace_append)
      have "trace (snd (process ctx))
          = trace ctx @ (Dequeue event # t1 @ FreeData (freeData event) (data event) # t2)"
        using pr t2 t1(1) by simp
      then have n: "newTrace ctx (snd (process ctx))
          = Dequeue event # t1 @ FreeData (freeData event) (data event) # t2"
        by (rule newTrace_append)
      from 1[OF Cons he[symmetric] Normal] n2 mb
      have "handshake (Free, rest) t2 = Some (Free, mailbox (snd (process ?c2)))" by simp
      then show ?thesis using n pr Cons hx by (simp add: handshake_append)
    next
      case (Thrown e)
      have pr: "process ctx = (Thrown e, c'\<lparr>trace := trace c' @ [FreeData (freeData event) (data event)]\<rparr>)"
        using Cons he Thrown by (subst process.simps) simp
      have "newTrace ctx (snd (process ctx)) = Dequeue event # t1 @ [FreeData (freeData event) (data event)]"
        using pr t1(1) by (simp add: newTrace_def)
      then show ?thesis using pr Cons hx mb by (simp add: handshake_append)
    next
      case Undefined
      have pr: "process ctx = (Undefined, c')"
        using Cons he Undefined by (subst process.simps) simp
      have "newTrace ctx (snd (process ctx)) = Dequeue event # t1"
        using pr t1(1) by (simp add: newTrace_def)
      then show ?thesis using pr Cons hx mb by simp
    next
      case StillLooping
      with handleEvent_not_looping[of event ?c] he show ?thesis by simp
    qed
  qed
qed

lemma balanced_append: "balanced a \<Longrightarrow> balanced b \<Longrightarrow> balanced (a @ b)"
  by (simp add: balanced_def freed_append dequeued_append)

lemma yieldPost_base: "yieldPost 0 ctx StillLooping ctx"
  by (simp add: yieldPost_def segment_def newTrace_def balanced_def)

lemma yieldPost_stop:
  assumes "segment ctx seg c" "r = Undefined \<or> (\<exists>e. r = Thrown e)"
    "r \<noteq> Undefined \<longrightarrow> balanced seg"
    "filter isSleep seg = []" "\<not> executor ctx \<longrightarrow> filter isSync seg = []"
  shows "yieldPost n ctx r c"
proof -
  from assms(1) have nt: "newTrace ctx c = seg" by (simp add: segment_def newTrace_def)
  have "\<not> executor ctx \<longrightarrow> (\<exists>k\<le>n. filter isSync seg = replicate k (Sleep 1) \<and> (r = StillLooping \<longrightarrow> k = n))"
    using assms(2,5) by (intro impI exI[of _ 0]) auto
  with assms nt show ?thesis by (auto simp: yieldPost_def)
qed

lemma yieldPost_step:
  assumes seg: "segment ctx seg c" and bal: "balanced seg"
    and slp: "\<not> executor ctx \<longrightarrow> filter isSync seg = [Sleep 1]"
    and lck: "executor ctx \<longrightarrow> filter isSleep seg = [] \<and> length (filter (\<lambda>a. a = Lock) seg) = 1"
    and post: "yieldPost n c r c'"
  shows "yieldPost (Suc n) ctx r c'"
proof -
  let ?t = "newTrace c c'"
  from post have p: "segment c ?t c'" "r \<noteq> Undefined \<longrightarrow> balanced ?t" "r \<noteq> Normal"
    by (simp_all add: yieldPost_def)
  from seg p(1) have tr: "trace c' = trace ctx @ (seg @ ?t)" by (simp add: segment_def)
  then have nt: "newTrace ctx c' = seg @ ?t" by (rule newTrace_append)
  from seg p(1) have sg: "segment ctx (seg @ ?t) c'"
    by (simp add: segment_def handshake_append)
  from seg have ex: "executor c = executor ctx" by (simp add: segment_def)
  have a: "\<not> executor ctx \<longrightarrow> (\<exists>k\<le>Suc n. filter isSync (seg @ ?t) = replicate k (Sleep 1)
                 \<and> (r = StillLooping \<longrightarrow> k = Suc n))"
  proof
    assume ne: "\<not> executor ctx"
    with post ex obtain k where k: "k \<le> n" "filter isSync ?t = replicate k (Sleep 1)"
      "r = StillLooping \<longrightarrow> k = n" by (auto simp: yieldPost_def)
    with slp ne have "filter isSync (seg @ ?t) = replicate (Suc k) (Sleep 1)" by simp
    with k show "\<exists>k\<le>Suc n. filter isSync (seg @ ?t) = replicate k (Sleep 1)
                 \<and> (r = StillLooping \<longrightarrow> k = Suc n)"
      by (intro exI[of _ "Suc k"]) simp
  qed
  have b: "executor ctx \<longrightarrow> filter isSleep (seg @ ?t) = []
          \<and> (r = StillLooping \<longrightarrow> length (filter (\<lambda>a. a = Lock) (seg @ ?t)) = Suc n)"
    using post ex lck by (auto simp: yieldPost_def)
  show ?thesis
    unfolding yieldPost_def nt using sg p(2,3) bal a b by (simp add: balanced_append)
qed

lemma execute_work: "list_all isExecute t \<Longrightarrow> list_all isWork t"
  by (induction t rule: freed.induct) simp_all

lemma work_quiet:
  "list_all isWork t \<Longrightarrow>
     filter isSync t = [] \<and> filter isSleep t = [] \<and> filter (\<lambda>a. a = Lock) t = []"
  by (induction t rule: freed.induct) simp_all

lemma enqueue_quiet:
  "filter isSync (map Enqueue es) = []" "filter isSleep (map Enqueue es) = []"
  "filter (\<lambda>a. a = Lock) (map Enqueue es) = []"
  "freed (map Enqueue es) = []" "dequeued (map Enqueue es) = []"
  by (induction es) simp_all

lemma process_work: "list_all isWork (newTrace ctx (snd (process ctx)))"
proof (induction ctx rule: process.induct)
  case (1 ctx)
  show ?case
  proof (cases "mailbox ctx")
    case Nil
    then show ?thesis by (subst process.simps) (simp add: newTrace_def)
  next
    case (Cons event rest)
    let ?c = "ctx\<lparr>mailbox := rest, trace := trace ctx @ [Dequeue event]\<rparr>"
    obtain r c' where he: "handleEvent event ?c = (r, c')" by force
    from handleEvent_trace[of event ?c] he obtain t1 where
      t1: "trace c' = trace ctx @ Dequeue event # t1" "list_all isExecute t1" by auto
    note w1 = execute_work[OF t1(2)]
    show ?thesis
    proof (cases r)
      case Normal
      let ?c2 = "c'\<lparr>trace := trace c' @ [FreeData (freeData event) (data event)]\<rparr>"
      have pr: "process ctx = process ?c2"
        using Cons he Normal by (subst process.simps) simp
      from process_trace[of ?c2] obtain t2 where t2: "trace (snd (process ?c2)) = trace ?c2 @ t2"
        by blast
      then have n2: "newTrace ?c2 (snd (process ?c2)) = t2" by (rule newTrace_append)
      have "trace (snd (process ctx))
          = trace ctx @ (Dequeue event # t1 @ FreeData (freeData event) (data event) # t2)"
        using pr t2 t1(1) by simp
      then have "newTrace ctx (snd (process ctx))
          = Dequeue event # t1 @ FreeData (freeData event) (data event) # t2"
        by (rule newTrace_append)
      with 1[OF Cons he[symmetric] Normal] n2 w1 show ?thesis by simp
    next
      case (Thrown e)
      have "process ctx = (Thrown e, c'\<lparr>trace := trace c' @ [FreeData (freeData event) (data event)]\<rparr>)"
        using Cons he Thrown by (subst process.simps) simp
      with t1(1) w1 show ?thesis by (simp add: newTrace_def)
    next
      case Undefined
      have "process ctx = (Undefined, c')"
        using Cons he Undefined by (subst process.simps) simp
      with t1(1) w1 show ?thesis by (simp add: newTrace_def)
    next
      case StillLooping
      with handleEvent_not_looping[of event ?c] he show ?thesis by simp
    qed
  qed
qed

lemma process_segment: "segment ctx (newTrace ctx (snd (process ctx))) (snd (process ctx))"
proof -
  from process_trace[of ctx] obtain t where t: "trace (snd (process ctx)) = trace ctx @ t" by blast
  then have "newTrace ctx (snd (process ctx)) = t" by (rule newTrace_append)
  with t process_handshake[of ctx] process_frame[of ctx] show ?thesis by (simp add: segment_def)
qed

lemma process_balanced:
  "fst (process ctx) \<noteq> Undefined \<Longrightarrow> balanced (newTrace ctx (snd (process ctx)))"
proof -
  assume a: "fst (process ctx) \<noteq> Undefined"
  from process_trace[of ctx] obtain t where t: "trace (snd (process ctx)) = trace ctx @ t"
    "fst (process ctx) \<noteq> Undefined \<longrightarrow> balanced t" by blast
  from t(1) have "newTrace ctx (snd (process ctx)) = t" by (rule newTrace_append)
  with t(2) a show ?thesis by simp
qed

lemma process_not_looping: "fst (process ctx) \<noteq> StillLooping"
  using process_trace[of ctx] by blast

lemma segment_append:
  "segment a s b \<Longrightarrow> trace c = trace b @ s' \<Longrightarrow> executor c = executor b
     \<Longrightarrow> handshake (Free, mailbox b) s' = Some (Free, mailbox c) \<Longrightarrow> segment a (s @ s') c"
  by (simp add: segment_def handshake_append)

lemma process_drains: "fst (process ctx) = Normal \<Longrightarrow> mailbox (snd (process ctx)) = []"
proof (induction ctx rule: process.induct)
  case (1 ctx)
  show ?case
  proof (cases "mailbox ctx")
    case Nil
    then show ?thesis by (subst process.simps) simp
  next
    case (Cons event rest)
    let ?c = "ctx\<lparr>mailbox := rest, trace := trace ctx @ [Dequeue event]\<rparr>"
    obtain r c' where he: "handleEvent event ?c = (r, c')" by force
    show ?thesis
    proof (cases r)
      case Normal
      let ?c2 = "c'\<lparr>trace := trace c' @ [FreeData (freeData event) (data event)]\<rparr>"
      have pr: "process ctx = process ?c2"
        using Cons he Normal by (subst process.simps) simp
      with 1(2) have "fst (process ?c2) = Normal" by simp
      from 1(1)[OF Cons he[symmetric] Normal this] pr show ?thesis by simp
    next
      case (Thrown e)
      have "process ctx = (Thrown e, c'\<lparr>trace := trace c' @ [FreeData (freeData event) (data event)]\<rparr>)"
        using Cons he Thrown by (subst process.simps) simp
      with 1(2) show ?thesis by simp
    next
      case Undefined
      have "process ctx = (Undefined, c')" using Cons he Undefined by (subst process.simps) simp
      with 1(2) show ?thesis by simp
    next
      case StillLooping
      have "process ctx = (StillLooping, c')" using Cons he StillLooping by (subst process.simps) simp
      with 1(2) show ?thesis by simp
    qed
  qed
qed

lemma yield_post: "yieldPost (length ts) ctx (fst (yield ts ctx)) (snd (yield ts ctx))"
proof (induction ts arbitrary: ctx)
  case Nil
  show ?case by (simp add: yieldPost_base)
next
  case (Cons t ts)
  obtain r1 c1 where pr: "process ctx = (r1, c1)" by force
  let ?tp = "newTrace ctx c1"
  from process_segment[of ctx] pr have sp: "segment ctx ?tp c1" by simp
  from process_work[of ctx] pr have wp: "list_all isWork ?tp" by simp
  note qp = work_quiet[OF wp]
  from process_balanced[of ctx] pr have bp: "r1 \<noteq> Undefined \<Longrightarrow> balanced ?tp" by simp
  from process_not_looping[of ctx] pr have nl: "r1 \<noteq> StillLooping" by simp
  from sp have ex1: "executor c1 = executor ctx" by (simp add: segment_def)
  show ?case
  proof (cases "r1 = Normal")
    case False
    with pr have y: "yield (t # ts) ctx = (r1, c1)" by (cases r1) simp_all
    from False nl have "r1 = Undefined \<or> (\<exists>e. r1 = Thrown e)" by (cases r1) simp_all
    with sp bp qp y show ?thesis by (simp add: yieldPost_stop)
  next
    case True
    note bpn = bp[unfolded True, simplified]
    show ?thesis
    proof (cases "executor c1")
      case False
      let ?s = "map Enqueue (beforeLock t @ beforeCheck t @ beforeSuspend t) @ [Sleep 1]
                @ map Enqueue (afterCheck t)"
      let ?c = "c1\<lparr>mailbox := mailbox c1 @ beforeLock t @ beforeCheck t @ beforeSuspend t
                                @ afterCheck t,
                    trace := trace c1 @ ?s\<rparr>"
      from pr True False have y: "yield (t # ts) ctx = yield ts ?c" by simp
      have "handshake (Free, mailbox c1) ?s = Some (Free, mailbox ?c)"
        by (simp add: handshake_append handshake_enqueues)
      with sp have sg: "segment ctx (?tp @ ?s) ?c" by (intro segment_append) simp_all
      have bal: "balanced (?tp @ ?s)"
        using bpn by (simp add: balanced_def freed_append dequeued_append enqueue_quiet)
      have "yieldPost (Suc (length ts)) ctx (fst (yield ts ?c)) (snd (yield ts ?c))"
        using sg bal qp ex1 False Cons[of ?c]
        by (intro yieldPost_step[where c = ?c and seg = "?tp @ ?s"])
           (simp_all add: enqueue_quiet)
      with y show ?thesis by simp
    next
      case bound: True
      let ?c2 = "c1\<lparr>mailbox := mailbox c1 @ beforeLock t @ beforeCheck t, mutexLocked := True,
                      trace := trace c1 @ map Enqueue (beforeLock t) @ [Lock]
                               @ map Enqueue (beforeCheck t)\<rparr>"
      show ?thesis
      proof (cases "mailbox c1 @ beforeLock t @ beforeCheck t")
        case Nil
        let ?s = "map Enqueue (beforeLock t) @ [Lock] @ map Enqueue (beforeCheck t)
                  @ [DequeueEmpty] @ map Enqueue (beforeSuspend t) @ [Suspend]
                  @ map Enqueue (afterCheck t)"
        let ?c = "?c2\<lparr>mailbox := beforeSuspend t @ afterCheck t, mutexLocked := False,
                       trace := trace ?c2 @ [DequeueEmpty] @ map Enqueue (beforeSuspend t)
                                @ [Suspend] @ map Enqueue (afterCheck t)\<rparr>"
        from pr True bound Nil have y: "yield (t # ts) ctx = yield ts ?c" by (simp add: Let_def)
        have "handshake (Free, mailbox c1) ?s = Some (Free, mailbox ?c)"
          using Nil by (simp add: handshake_append handshake_enqueues)
        with sp have sg: "segment ctx (?tp @ ?s) ?c" by (intro segment_append) simp_all
        have bal: "balanced (?tp @ ?s)"
          using bpn by (simp add: balanced_def freed_append dequeued_append enqueue_quiet)
        have "yieldPost (Suc (length ts)) ctx (fst (yield ts ?c)) (snd (yield ts ?c))"
          using sg bal qp ex1 bound Cons[of ?c]
          by (intro yieldPost_step[where c = ?c and seg = "?tp @ ?s"]) (simp_all add: enqueue_quiet)
        with y show ?thesis by simp
      next
        case (Cons event rest)
        let ?c3 = "?c2\<lparr>mailbox := rest, mutexLocked := False,
                        trace := trace ?c2 @ [Dequeue event, Unlock]\<rparr>"
        obtain r c4 where he: "handleEvent event ?c3 = (r, c4)" by force
        from handleEvent_trace[of event ?c3] he obtain t4 where
          t4: "trace c4 = trace ?c3 @ t4" "list_all isExecute t4" by auto
        from handleEvent_frame[of ?c3 event] he
        have fr: "mailbox c4 = rest" "executor c4 = executor c1" by (simp_all add: frameOf_def)
        note q4 = work_quiet[OF execute_work[OF t4(2)]] isExecute_quiet[OF t4(2)]
        note hx = handshake_executes[OF t4(2), of rest]
        let ?s0 = "map Enqueue (beforeLock t) @ [Lock] @ map Enqueue (beforeCheck t)
                   @ [Dequeue event, Unlock] @ t4"
        have h0: "handshake (Free, mailbox c1) ?s0 = Some (Free, rest)"
          using Cons hx by (simp add: handshake_append handshake_enqueues)
        have tr0: "trace c4 = trace c1 @ ?s0" using t4(1) by simp
        from handleEvent_not_looping[of event ?c3] he have rl: "r \<noteq> StillLooping" by simp
        show ?thesis
        proof (cases r)
          case Normal
          let ?s = "?s0 @ [FreeData (freeData event) (data event)]
                    @ map Enqueue (beforeSuspend t @ afterCheck t)"
          let ?c = "c4\<lparr>mailbox := mailbox c4 @ beforeSuspend t @ afterCheck t,
                        trace := trace c4 @ [FreeData (freeData event) (data event)]
                                 @ map Enqueue (beforeSuspend t @ afterCheck t)\<rparr>"
          from pr True bound Cons he Normal have y: "yield (t # ts) ctx = yield ts ?c"
            by (simp add: Let_def)
          have "handshake (Free, mailbox c1) ?s = Some (Free, mailbox ?c)"
            using h0 fr
            by (simp add: handshake_append handshake_enqueues del: append_assoc)
          with sp tr0 fr have sg: "segment ctx (?tp @ ?s) ?c" by (intro segment_append) simp_all
          have bal: "balanced (?tp @ ?s)"
            using bpn q4
            by (simp add: balanced_def freed_append dequeued_append enqueue_quiet)
          have "yieldPost (Suc (length ts)) ctx (fst (yield ts ?c)) (snd (yield ts ?c))"
            using sg bal qp q4 ex1 bound Cons.IH[of ?c]
            by (intro yieldPost_step[where c = ?c and seg = "?tp @ ?s"])
               (simp_all add: enqueue_quiet)
          with y show ?thesis by simp
        next
          case (Thrown e)
          let ?s = "?s0 @ [FreeData (freeData event) (data event)]"
          let ?c = "c4\<lparr>trace := trace c4 @ [FreeData (freeData event) (data event)]\<rparr>"
          from pr True bound Cons he Thrown have y: "yield (t # ts) ctx = (Thrown e, ?c)"
            by (simp add: Let_def)
          have "handshake (Free, mailbox c1) ?s = Some (Free, mailbox ?c)"
            using h0 fr by (simp add: handshake_append handshake_enqueues del: append_assoc)
          with sp tr0 fr have sg: "segment ctx (?tp @ ?s) ?c" by (intro segment_append) simp_all
          have bal: "balanced (?tp @ ?s)"
            using bpn q4 by (simp add: balanced_def freed_append dequeued_append enqueue_quiet)
          have "yieldPost (length (t # ts)) ctx (Thrown e) ?c"
            using sg bal qp q4 ex1 bound
            by (intro yieldPost_stop[where seg = "?tp @ ?s"]) (simp_all add: enqueue_quiet)
          with y show ?thesis by simp
        next
          case Undefined
          from pr True bound Cons he Undefined have y: "yield (t # ts) ctx = (Undefined, c4)"
            by (simp add: Let_def)
          from sp tr0 fr h0 have sg: "segment ctx (?tp @ ?s0) c4" by (intro segment_append) simp_all
          have "yieldPost (length (t # ts)) ctx Undefined c4"
            using sg qp q4 ex1 bound
            by (intro yieldPost_stop[where seg = "?tp @ ?s0"]) (simp_all add: enqueue_quiet)
          with y show ?thesis by simp
        next
          case StillLooping
          with rl show ?thesis by simp
        qed
      qed
    qed
  qed
qed

subsection \<open>The search for a live handler\<close>

lemma pruneBelow_snoc:
  "pruneBelow (xs @ [h]) = (if isDestroyed h then pruneBelow xs else xs @ [h])"
  by (simp add: pruneBelow_def)

lemma findAlive_char:
  "i < length hs \<Longrightarrow>
   findAlive hs i = (pruneBelow (take (Suc i) hs) @ drop (Suc i) hs,
                     if pruneBelow (take (Suc i) hs) = [] then None
                     else Some (length (pruneBelow (take (Suc i) hs)) - 1))"
proof (induction hs i rule: findAlive.induct)
  case (1 hs)
  then have "take (Suc 0) hs = [hs ! 0]" by (cases hs) simp_all
  moreover have "drop (Suc 0) hs = tl hs" by (simp add: drop_Suc)
  moreover from 1 have "hs = hs ! 0 # tl hs" by (cases hs) simp_all
  ultimately show ?case using pruneBelow_snoc[of "[]" "hs ! 0"]
    by (auto simp: pruneBelow_def)
next
  case (2 hs i)
  have tk: "take (Suc (Suc i)) hs = take (Suc i) hs @ [hs ! Suc i]"
    using 2(2) by (simp add: take_Suc_conv_app_nth)
  show ?case
  proof (cases "isDestroyed (hs ! Suc i)")
    case True
    have len: "i < length (eraseAt (Suc i) hs)" using 2(2) by (simp add: eraseAt_def)
    have t1: "take (Suc i) (eraseAt (Suc i) hs) = take (Suc i) hs"
      using 2(2) by (simp add: eraseAt_def)
    have t2: "drop (Suc i) (eraseAt (Suc i) hs) = drop (Suc (Suc i)) hs"
      using 2(2) by (simp add: eraseAt_def)
    from 2(1)[OF True len] True show ?thesis
      by (simp add: t1 t2 tk pruneBelow_snoc del: take_Suc_conv_app_nth)
  next
    case False
    have "pruneBelow (take (Suc (Suc i)) hs) = take (Suc (Suc i)) hs"
      using False by (simp add: tk pruneBelow_snoc)
    with False 2(2) show ?thesis by auto
  qed
qed

lemma pruneBelow_prefix: "prefix (pruneBelow xs) xs"
  unfolding pruneBelow_def
  by (metis prefix_def rev_append rev_rev_ident takeWhile_dropWhile_id)


lemma pruneBelow_set: "set (pruneBelow xs) \<subseteq> set xs"
  using pruneBelow_prefix[of xs] by (rule set_mono_prefix)

lemma findAlive_set:
  assumes "i < length hs" "findAlive hs i = (hs', r)"
  shows "set hs' \<subseteq> set hs" and "r = Some j \<Longrightarrow> j < length hs' \<and> hs' ! j \<in> set hs"
proof -
  let ?live = "pruneBelow (take (Suc i) hs)"
  from assms findAlive_char[of i hs] have hs': "hs' = ?live @ drop (Suc i) hs"
    and r: "r = (if ?live = [] then None else Some (length ?live - 1))" by simp_all
  have sub: "set ?live \<subseteq> set hs" using pruneBelow_set[of "take (Suc i) hs"] set_take_subset[of "Suc i" hs] by blast
  show "set hs' \<subseteq> set hs" using hs' sub set_drop_subset[of "Suc i" hs] by auto
  assume "r = Some j"
  with r have ne: "?live \<noteq> []" and j: "j = length ?live - 1" by (auto split: if_splits)
  have jl: "j < length ?live" using ne j by (cases ?live) simp_all
  then have "hs' ! j = last ?live" using hs' j ne by (simp add: nth_append last_conv_nth)
  moreover have "last ?live \<in> set ?live" using ne by simp
  moreover have "j < length hs'" using jl hs' by simp
  ultimately show "j < length hs' \<and> hs' ! j \<in> set hs" using sub by auto
qed

lemma neverThrows_update:
  "neverThrows ctx \<Longrightarrow> handlerBlocks ctx p = Some hs \<Longrightarrow> set hs' \<subseteq> set hs
     \<Longrightarrow> handlerBlocks c = (handlerBlocks ctx)(p \<mapsto> hs') \<Longrightarrow> neverThrows c"
  unfolding neverThrows_def by (auto split: if_splits)

lemma super_execute_neverThrows:
  "neverThrows ctx \<Longrightarrow> (\<forall>e. fst (super ctx) \<noteq> Thrown e) \<and> neverThrows (snd (super ctx))"
  "neverThrows ctx \<Longrightarrow> set cs \<subseteq> {CallSuper}
     \<Longrightarrow> (\<forall>e. fst (execute cs d ctx) \<noteq> Thrown e) \<and> neverThrows (snd (execute cs d ctx))"
proof (induction ctx and cs d ctx rule: super_execute.induct)
  case (1 ctx)
  show ?case
  proof (cases "\<exists>hc hs k hs' r. handlerContext ctx = Some hc \<and> handlerBlocks ctx (handlerBlock hc) = Some hs
        \<and> handler hc = Pos k \<and> \<not> length hs < k \<and> k \<noteq> 0 \<and> findAlive hs (k - 1) = (hs', r)")
    case True
    then obtain hc hs k hs' r where h: "handlerContext ctx = Some hc"
      "handlerBlocks ctx (handlerBlock hc) = Some hs" "handler hc = Pos k" "\<not> length hs < k" "k \<noteq> 0"
      "findAlive hs (k - 1) = (hs', r)" by blast
    from h(4,5) have lt: "k - 1 < length hs" by simp
    note fs = findAlive_set[OF lt h(6)]
    show ?thesis
    proof (cases r)
      case None
      let ?c = "ctx\<lparr>handlerBlocks := (handlerBlocks ctx)(handlerBlock hc \<mapsto> hs'),
                     handlerContext := Some (hc\<lparr>handler := Dangling\<rparr>)\<rparr>"
      have "super ctx = (Normal, ?c)" using h None by (subst super.simps) simp
      moreover have "neverThrows ?c"
        using 1(2) h(2) fs(1) by (rule neverThrows_update) simp
      ultimately show ?thesis by simp
    next
      case (Some j)
      let ?c = "ctx\<lparr>handlerBlocks := (handlerBlocks ctx)(handlerBlock hc \<mapsto> hs'),
                     handlerContext := Some (hc\<lparr>handler := Pos j\<rparr>),
                     trace := trace ctx @ [Execute (hid (hs' ! j)) (hdata hc)]\<rparr>"
      have sup: "super ctx = execute (body (hs' ! j)) (hdata hc) ?c"
        using h Some by (subst super.simps) simp
      have nt: "neverThrows ?c" using 1(2) h(2) fs(1) by (rule neverThrows_update) simp
      from fs(2)[OF Some] 1(2) h(2) have bd: "set (body (hs' ! j)) \<subseteq> {CallSuper}"
        unfolding neverThrows_def by blast
      from 1(1)[OF h(1-5) h(6)[symmetric] Some nt bd] sup show ?thesis by simp
    qed
  next
    case False
    then have "super ctx = (Undefined, ctx) \<or> super ctx = (Normal, ctx)"
      by (subst (1 2) super.simps) (auto split: option.splits cursor.splits prod.splits)
    with 1(2) show ?thesis by auto
  qed
next
  case (3 cs d ctx)
  obtain r c' where sc: "super ctx = (r, c')" by force
  from 3(1)[OF 3(3)] sc have a: "\<forall>e. r \<noteq> Thrown e" "neverThrows c'" by simp_all
  show ?case
  proof (cases "r = Normal")
    case True
    from 3(2)[OF sc[symmetric] True a(2)] 3(4) sc True show ?thesis by simp
  next
    case False
    with sc a show ?thesis by (cases r) simp_all
  qed
qed simp_all

lemma neverThrows_blocks: "handlerBlocks c = handlerBlocks ctx \<Longrightarrow> neverThrows c = neverThrows ctx"
  by (simp add: neverThrows_def)

lemma popDestroyed_set: "set (popDestroyed hs) \<subseteq> set hs"
  using popDestroyed_prefix[of hs] by (rule set_mono_prefix)

lemma handleEvent_neverThrows:
  assumes "neverThrows ctx"
  shows "(\<forall>e. fst (handleEvent event ctx) \<noteq> Thrown e) \<and> neverThrows (snd (handleEvent event ctx))"
proof (cases "handlerBlocks ctx (path event)")
  case None
  with assms show ?thesis by (simp add: handleEvent_def)
next
  case (Some hs)
  show ?thesis
  proof (cases "popDestroyed hs = []")
    case True
    have "neverThrows (ctx\<lparr>handlerBlocks := (handlerBlocks ctx)(path event := None)\<rparr>)"
      using assms unfolding neverThrows_def by (auto split: if_splits)
    with Some True show ?thesis by (simp add: handleEvent_def)
  next
    case False
    let ?c = "ctx\<lparr>handlerBlocks := (handlerBlocks ctx)(path event \<mapsto> popDestroyed hs),
                   handlerContext := Some \<lparr>handlerBlock = path event,
                                           handler = Pos (length (popDestroyed hs)),
                                           hdata = data event\<rparr>\<rparr>"
    have nt: "neverThrows ?c" using assms Some popDestroyed_set[of hs]
      by (rule neverThrows_update) simp
    obtain r c' where sc: "super ?c = (r, c')" by force
    from super_execute_neverThrows(1)[OF nt] sc have a: "\<forall>e. r \<noteq> Thrown e" "neverThrows c'"
      by simp_all
    have "neverThrows (c'\<lparr>handlerContext := None\<rparr>)" using a(2) by (simp add: neverThrows_def)
    with Some False sc a show ?thesis by (cases r) (simp_all add: handleEvent_def Let_def)
  qed
qed

lemma process_neverThrows:
  "neverThrows ctx \<Longrightarrow> (\<forall>e. fst (process ctx) \<noteq> Thrown e) \<and> neverThrows (snd (process ctx))"
proof (induction ctx rule: process.induct)
  case (1 ctx)
  show ?case
  proof (cases "mailbox ctx")
    case Nil
    with 1(2) show ?thesis by (subst (1 2) process.simps) simp
  next
    case (Cons event rest)
    let ?c = "ctx\<lparr>mailbox := rest, trace := trace ctx @ [Dequeue event]\<rparr>"
    obtain r c' where he: "handleEvent event ?c = (r, c')" by force
    have "neverThrows ?c" using 1(2) by (simp add: neverThrows_def)
    from handleEvent_neverThrows[OF this, of event] he
    have a: "\<forall>e. r \<noteq> Thrown e" "neverThrows c'" by simp_all
    show ?thesis
    proof (cases r)
      case Normal
      let ?c2 = "c'\<lparr>trace := trace c' @ [FreeData (freeData event) (data event)]\<rparr>"
      have pr: "process ctx = process ?c2"
        using Cons he Normal by (subst process.simps) simp
      have "neverThrows ?c2" using a(2) by (simp add: neverThrows_def)
      from 1(1)[OF Cons he[symmetric] Normal this] pr show ?thesis by simp
    next
      case (Thrown e)
      with a show ?thesis by simp
    next
      case Undefined
      with Cons he a show ?thesis by (subst (1 2) process.simps) simp
    next
      case StillLooping
      with Cons he a show ?thesis by (subst (1 2) process.simps) simp
    qed
  qed
qed

lemma yield_neverThrows: "neverThrows ctx \<Longrightarrow> \<forall>e. fst (yield ts ctx) \<noteq> Thrown e"
proof (induction ts arbitrary: ctx)
  case Nil
  show ?case by simp
next
  case (Cons t ts)
  obtain r1 c1 where pr: "process ctx = (r1, c1)" by force
  from process_neverThrows[OF Cons(2)] pr have a: "\<forall>e. r1 \<noteq> Thrown e" "neverThrows c1" by simp_all
  show ?case
  proof (cases "r1 = Normal")
    case False
    with pr a show ?thesis by (cases r1) simp_all
  next
    case True
    show ?thesis
    proof (cases "executor c1")
      case False
      let ?c = "c1\<lparr>mailbox := mailbox c1 @ beforeLock t @ beforeCheck t @ beforeSuspend t
                                @ afterCheck t,
                    trace := trace c1
                             @ map Enqueue (beforeLock t @ beforeCheck t @ beforeSuspend t)
                             @ [Sleep 1] @ map Enqueue (afterCheck t)\<rparr>"
      have "neverThrows ?c" using a(2) by (simp add: neverThrows_def)
      from Cons(1)[OF this] pr True False show ?thesis by simp
    next
      case bound: True
      let ?c2 = "c1\<lparr>mailbox := mailbox c1 @ beforeLock t @ beforeCheck t, mutexLocked := True,
                      trace := trace c1 @ map Enqueue (beforeLock t) @ [Lock]
                               @ map Enqueue (beforeCheck t)\<rparr>"
      show ?thesis
      proof (cases "mailbox c1 @ beforeLock t @ beforeCheck t")
        case Nil
        let ?c = "?c2\<lparr>mailbox := beforeSuspend t @ afterCheck t, mutexLocked := False,
                       trace := trace ?c2 @ [DequeueEmpty] @ map Enqueue (beforeSuspend t)
                                @ [Suspend] @ map Enqueue (afterCheck t)\<rparr>"
        have "neverThrows ?c" using a(2) by (simp add: neverThrows_def)
        from Cons(1)[OF this] pr True bound Nil show ?thesis by (simp add: Let_def)
      next
        case (Cons event rest)
        let ?c3 = "?c2\<lparr>mailbox := rest, mutexLocked := False,
                        trace := trace ?c2 @ [Dequeue event, Unlock]\<rparr>"
        obtain r c4 where he: "handleEvent event ?c3 = (r, c4)" by force
        have "neverThrows ?c3" using a(2) by (simp add: neverThrows_def)
        from handleEvent_neverThrows[OF this, of event] he
        have b: "\<forall>e. r \<noteq> Thrown e" "neverThrows c4" by simp_all
        show ?thesis
        proof (cases r)
          case Normal
          let ?c = "c4\<lparr>mailbox := mailbox c4 @ beforeSuspend t @ afterCheck t,
                        trace := trace c4 @ [FreeData (freeData event) (data event)]
                                 @ map Enqueue (beforeSuspend t @ afterCheck t)\<rparr>"
          have "neverThrows ?c" using b(2) by (simp add: neverThrows_def)
          from Cons.IH[OF this] pr True bound Cons he Normal show ?thesis by (simp add: Let_def)
        next
          case (Thrown e)
          with b show ?thesis by simp
        next
          case Undefined
          with pr True bound Cons he show ?thesis by (simp add: Let_def)
        next
          case StillLooping
          with pr True bound Cons he show ?thesis by (simp add: Let_def)
        qed
      qed
    qed
  qed
qed

subsection \<open>Pruned blocks\<close>

lemma prunedFrom_refl: "prunedFrom hs hs"
  by (simp add: prunedFrom_def)

lemma prunedFrom_trans: "prunedFrom a b \<Longrightarrow> prunedFrom b c \<Longrightarrow> prunedFrom a c"
  unfolding prunedFrom_def by (auto intro: subseq_order.order_trans)

lemma prunedFrom_append: "prunedFrom a b \<Longrightarrow> prunedFrom (a @ c) (b @ c)"
  unfolding prunedFrom_def by (simp add: subseq_append)

lemma filter_live_dropWhile: "filter live (rev (dropWhile isDestroyed xs)) = filter live (rev xs)"
  by (induction xs) (auto simp: live_def)

lemma pruneBelow_prunedFrom: "prunedFrom (pruneBelow xs) xs"
  unfolding prunedFrom_def
  using pruneBelow_prefix[of xs] filter_live_dropWhile[of "rev xs"]
  by (simp add: prefix_imp_subseq pruneBelow_def)

lemma popDestroyed_pruneBelow: "popDestroyed hs = pruneBelow hs"
  by (simp add: popDestroyed_rev pruneBelow_def)

lemma findAlive_prunedFrom:
  assumes "i < length hs" "findAlive hs i = (hs', r)"
  shows "prunedFrom hs' hs"
proof -
  from assms findAlive_char[of i hs]
  have "hs' = pruneBelow (take (Suc i) hs) @ drop (Suc i) hs" by simp
  moreover have "prunedFrom (pruneBelow (take (Suc i) hs) @ drop (Suc i) hs)
                   (take (Suc i) hs @ drop (Suc i) hs)"
    by (intro prunedFrom_append pruneBelow_prunedFrom)
  ultimately show ?thesis by simp
qed

lemma keeps_refl: "keeps p ctx ctx"
  by (auto simp: keeps_def prunedFrom_refl split: option.splits)

lemma keeps_trans:
  assumes ab: "keeps p a b" and bc: "keeps p b c"
  shows "keeps p a c"
proof -
  have 1: "\<forall>q. q \<noteq> p \<longrightarrow> handlerBlocks c q = handlerBlocks a q"
    using ab bc by (simp add: keeps_def)
  have 2: "case handlerBlocks a p of
             None \<Rightarrow> handlerBlocks c p = None
           | Some hs \<Rightarrow> (\<exists>b. handlerBlocks c p = Some b \<and> prunedFrom b hs)"
  proof (cases "handlerBlocks a p")
    case None
    with ab have "handlerBlocks b p = None" by (simp add: keeps_def)
    with bc have "handlerBlocks c p = None" by (simp add: keeps_def)
    with None show ?thesis by simp
  next
    case (Some hs)
    with ab obtain b1 where b1: "handlerBlocks b p = Some b1" "prunedFrom b1 hs"
      by (auto simp: keeps_def)
    with bc obtain b2 where b2: "handlerBlocks c p = Some b2" "prunedFrom b2 b1"
      by (auto simp: keeps_def)
    from b2(2) b1(2) have "prunedFrom b2 hs" by (rule prunedFrom_trans)
    with Some b2(1) show ?thesis by simp
  qed
  have 3: "\<forall>hc. handlerContext a = Some hc \<and> handlerBlock hc = p \<longrightarrow>
            (\<exists>hc'. handlerContext c = Some hc' \<and> handlerBlock hc' = p)"
  proof (intro allI impI)
    fix hc assume "handlerContext a = Some hc \<and> handlerBlock hc = p"
    with ab obtain hc1 where "handlerContext b = Some hc1 \<and> handlerBlock hc1 = p"
      unfolding keeps_def by blast
    with bc show "\<exists>hc'. handlerContext c = Some hc' \<and> handlerBlock hc' = p"
      unfolding keeps_def by blast
  qed
  from 1 2 3 show ?thesis unfolding keeps_def by blast
qed

lemma keeps_update:
  assumes "handlerBlocks ctx p = Some hs" "prunedFrom hs' hs"
    "handlerBlocks c = (handlerBlocks ctx)(p \<mapsto> hs')"
    "\<exists>hc'. handlerContext c = Some hc' \<and> handlerBlock hc' = p"
  shows "keeps p ctx c"
  unfolding keeps_def using assms by simp

lemma keeps_context:
  "keeps p ctx c \<Longrightarrow> handlerContext ctx = Some hc \<Longrightarrow> handlerBlock hc = p
     \<Longrightarrow> \<exists>hc'. handlerContext c = Some hc' \<and> handlerBlock hc' = p"
  unfolding keeps_def by blast

lemma super_execute_keeps:
  "handlerContext ctx = Some hc \<Longrightarrow> keeps (handlerBlock hc) ctx (snd (super ctx))"
  "handlerContext ctx = Some hc \<Longrightarrow> keeps (handlerBlock hc) ctx (snd (execute cs d ctx))"
proof (induction ctx and cs d ctx arbitrary: hc and hc rule: super_execute.induct)
  case (1 ctx)
  let ?p = "handlerBlock hc"
  note hcx = 1(2)
  show ?case
  proof (cases "handlerBlocks ctx ?p")
    case None
    with hcx have "super ctx = (Undefined, ctx)" by (subst super.simps) simp
    then show ?thesis by (simp add: keeps_refl)
  next
    case (Some hs)
    show ?thesis
    proof (cases "handler hc")
      case Dangling
      with hcx Some have "super ctx = (Undefined, ctx)" by (subst super.simps) simp
      then show ?thesis by (simp add: keeps_refl)
    next
      case (Pos k)
      show ?thesis
      proof (cases "length hs < k \<or> k = 0")
        case True
        with hcx Some Pos have "super ctx = (Undefined, ctx) \<or> super ctx = (Normal, ctx)"
          by (subst (1 2) super.simps) auto
        then show ?thesis by (auto simp: keeps_refl)
      next
        case False
        then have nl: "\<not> length hs < k" and k0: "k \<noteq> 0" by simp_all
        obtain hs' r where fa: "findAlive hs (k - 1) = (hs', r)" by force
        from nl k0 have lt: "k - 1 < length hs" by simp
        note pf = findAlive_prunedFrom[OF lt fa]
        show ?thesis
        proof (cases r)
          case None
          let ?c = "ctx\<lparr>handlerBlocks := (handlerBlocks ctx)(?p \<mapsto> hs'),
                         handlerContext := Some (hc\<lparr>handler := Dangling\<rparr>)\<rparr>"
          have "super ctx = (Normal, ?c)"
            using hcx Some Pos nl k0 fa None by (subst super.simps) simp
          moreover have "keeps ?p ctx ?c" using Some pf by (rule keeps_update) simp_all
          ultimately show ?thesis by simp
        next
          case (Some j)
          let ?c = "ctx\<lparr>handlerBlocks := (handlerBlocks ctx)(?p \<mapsto> hs'),
                         handlerContext := Some (hc\<lparr>handler := Pos j\<rparr>),
                         trace := trace ctx @ [Execute (hid (hs' ! j)) (hdata hc)]\<rparr>"
          have sup: "super ctx = execute (body (hs' ! j)) (hdata hc) ?c"
            using hcx \<open>handlerBlocks ctx ?p = Some hs\<close> Pos nl k0 fa Some
            by (subst super.simps) simp
          have k1: "keeps ?p ctx ?c"
            using \<open>handlerBlocks ctx ?p = Some hs\<close> pf by (rule keeps_update) simp_all
          have hc': "handlerContext ?c = Some (hc\<lparr>handler := Pos j\<rparr>)" by simp
          from 1(1)[OF hcx \<open>handlerBlocks ctx ?p = Some hs\<close> Pos nl k0 fa[symmetric] Some hc']
          have "keeps ?p ?c (snd (super ctx))" using sup by simp
          with k1 show ?thesis by (rule keeps_trans)
        qed
      qed
    qed
  qed
next
  case (3 cs d ctx)
  obtain r c' where sc: "super ctx = (r, c')" by force
  from 3(1)[OF 3(3)] sc have k1: "keeps (handlerBlock hc) ctx c'" by simp
  show ?case
  proof (cases "r = Normal")
    case True
    from keeps_context[OF k1 3(3) refl]
    obtain hc' where hc': "handlerContext c' = Some hc'" "handlerBlock hc' = handlerBlock hc"
      by blast
    from 3(2)[OF sc[symmetric] True hc'(1)] hc'(2)
    have "keeps (handlerBlock hc) c' (snd (execute cs d c'))" by simp
    with k1 have "keeps (handlerBlock hc) ctx (snd (execute cs d c'))" by (rule keeps_trans)
    with sc True show ?thesis by simp
  next
    case False
    with sc k1 show ?thesis by (cases r) simp_all
  qed
qed (simp_all add: keeps_refl)

lemma prunedFrom_last:
  assumes "prunedFrom b hs" "hs \<noteq> []" "live (last hs)"
  shows "b \<noteq> [] \<and> last b = last hs"
proof -
  from assms(2) obtain h0 where hs: "hs = h0 @ [last hs]" by (metis append_butlast_last_id)
  let ?l = "last hs"
  from assms(1) hs have sub: "subseq b (h0 @ [?l])" and fl: "filter live b = filter live (h0 @ [?l])"
    unfolding prunedFrom_def by simp_all
  from sub obtain b1 b2 where b: "b = b1 @ b2" "subseq b1 h0" "subseq b2 [?l]"
    by (rule subseq_appendE)
  show ?thesis
  proof (cases b2)
    case Nil
    with b have "subseq b h0" by simp
    then have "subseq (filter live b) (filter live h0)" by (rule subseq_filter)
    then have "length (filter live b) \<le> length (filter live h0)" by (rule list_emb_length)
    with fl assms(3) show ?thesis by simp
  next
    case (Cons x xs)
    with b(3) have "x = ?l \<and> xs = []" by (auto split: if_splits)
    with Cons b(1) show ?thesis by simp
  qed
qed

lemma handleEvent_stored:
  assumes "handlerBlocks ctx (path event) = Some hs" "popDestroyed hs \<noteq> []"
  shows "\<exists>b. handlerBlocks (snd (handleEvent event ctx)) = (handlerBlocks ctx)(path event \<mapsto> b)
            \<and> subseq b (popDestroyed hs)
            \<and> filter (\<lambda>h. \<not> isDestroyed h) b = filter (\<lambda>h. \<not> isDestroyed h) hs
            \<and> b \<noteq> [] \<and> \<not> isDestroyed (last b)"
proof -
  let ?p = "path event"
  let ?B = "popDestroyed hs"
  let ?hc = "\<lparr>handlerBlock = ?p, handler = Pos (length ?B), hdata = data event\<rparr>"
  let ?c = "ctx\<lparr>handlerBlocks := (handlerBlocks ctx)(?p \<mapsto> ?B), handlerContext := Some ?hc\<rparr>"
  obtain r c' where sc: "super ?c = (r, c')" by force
  have "keeps (handlerBlock ?hc) ?c (snd (super ?c))" by (rule super_execute_keeps(1)) simp
  with sc have k: "keeps ?p ?c c'" by simp
  then obtain b where b: "handlerBlocks c' ?p = Some b" "prunedFrom b ?B"
    by (auto simp: keeps_def)
  from k have oth: "\<forall>q. q \<noteq> ?p \<longrightarrow> handlerBlocks c' q = handlerBlocks ctx q"
    by (simp add: keeps_def)
  have eq: "handlerBlocks c' = (handlerBlocks ctx)(?p \<mapsto> b)"
  proof
    fix q show "handlerBlocks c' q = ((handlerBlocks ctx)(?p \<mapsto> b)) q"
      using b(1) oth by (cases "q = ?p") simp_all
  qed
  have he: "handlerBlocks (snd (handleEvent event ctx)) = handlerBlocks c'"
    using assms sc by (cases r) (simp_all add: handleEvent_def Let_def)
  have pB: "prunedFrom ?B hs" using pruneBelow_prunedFrom[of hs] by (simp add: popDestroyed_pruneBelow)
  from b(2) pB have "prunedFrom b hs" by (rule prunedFrom_trans)
  then have fl: "filter live b = filter live hs" by (simp add: prunedFrom_def)
  have lv: "live (last ?B)" using popDestroyed_last[OF assms(2)] by (simp add: live_def)
  from prunedFrom_last[OF b(2) assms(2) lv] lv have ne: "b \<noteq> []" "\<not> isDestroyed (last b)"
    by (simp_all add: live_def)
  have fl': "filter (\<lambda>h. \<not> isDestroyed h) b = filter (\<lambda>h. \<not> isDestroyed h) hs"
    using fl unfolding live_def[abs_def] .
  from b(2) have sb: "subseq b ?B" by (simp add: prunedFrom_def)
  show ?thesis using he eq sb fl' ne by (intro exI[of _ b]) simp
qed

subsection \<open>Lookup and pruning in \<^verbatim>\<open>handleEvent\<close>\<close>

text \<open>
  Claim C7. \<^verbatim>\<open>handleEvent\<close> looks up the handler block of the event's path. Without a block
  the event is dropped: the call returns and nothing has changed, so no handler has run. With
  a block, the destroyed handlers at its back are popped (what stays is the block up to its
  last live handler); when nothing stays, the map entry of the path is erased and the call
  returns without a dispatch. When something stays, the dispatch starts with the last live
  handler, run on the event's payload, and the block that the map holds afterwards, whether
  the call returns or a handler throws, has lost the destroyed handlers at its back: it is
  what was left of the popped block when only destroyed handlers were erased, it has every
  live handler of the old block, and its last handler is live. No other block has changed.
\<close>

theorem handleEvent_lookup_and_prune:
  "(handlerBlocks ctx (path event) = None \<longrightarrow> handleEvent event ctx = (Normal, ctx))
   \<and> (\<forall>hs. handlerBlocks ctx (path event) = Some hs \<longrightarrow>
         popDestroyed hs = rev (dropWhile isDestroyed (rev hs))
         \<and> ((\<forall>h\<in>set hs. isDestroyed h) \<longrightarrow>
              handleEvent event ctx =
                (Normal, ctx\<lparr>handlerBlocks := (handlerBlocks ctx)(path event := None)\<rparr>))
         \<and> (\<not> (\<forall>h\<in>set hs. isDestroyed h) \<longrightarrow>
              (\<exists>t. newTrace ctx (snd (handleEvent event ctx))
                     = Execute (hid (last (popDestroyed hs))) (data event) # t)
              \<and> (\<exists>b. handlerBlocks (snd (handleEvent event ctx))
                        = (handlerBlocks ctx)(path event \<mapsto> b)
                    \<and> subseq b (popDestroyed hs)
                    \<and> filter (\<lambda>h. \<not> isDestroyed h) b = filter (\<lambda>h. \<not> isDestroyed h) hs
                    \<and> b \<noteq> [] \<and> \<not> isDestroyed (last b))))"
  using handleEvent_first[of ctx event] handleEvent_stored[of ctx event]
  by (auto simp: handleEvent_def popDestroyed_Nil[symmetric] popDestroyed_rev[symmetric])

theorem handleEvent_lookup_and_prune_witness:
  "handleEvent (evA\<lparr>path := ''b''\<rparr>) ctxA = (Normal, ctxA)
   \<and> popDestroyed [\<lparr>hid = 1, isDestroyed = False, body = []\<rparr>, \<lparr>hid = 2, isDestroyed = True, body = []\<rparr>]
       = [\<lparr>hid = 1, isDestroyed = False, body = []\<rparr>]
   \<and> handleEvent evA (ctxA\<lparr>handlerBlocks := [''a'' \<mapsto> [\<lparr>hid = 2, isDestroyed = True, body = []\<rparr>]]\<rparr>)
       = (Normal, ctxA\<lparr>handlerBlocks := [''a'' \<mapsto> [\<lparr>hid = 2, isDestroyed = True, body = []\<rparr>]](''a'' := None)\<rparr>)
   \<and> (\<exists>t. newTrace ctxA (snd (handleEvent evA ctxA)) = Execute 1 7 # t)
   \<and> handlerBlocks (snd (handleEvent evA ctxA)) ''a'' = Some [\<lparr>hid = 1, isDestroyed = False, body = []\<rparr>]"
  using handleEvent_lookup_and_prune[of ctxA "evA\<lparr>path := ''b''\<rparr>"]
    handleEvent_lookup_and_prune[of ctxA evA]
    handleEvent_lookup_and_prune[of "ctxA\<lparr>handlerBlocks := [''a'' \<mapsto> [\<lparr>hid = 2, isDestroyed = True, body = []\<rparr>]]\<rparr>" evA]
  by (simp add: evA_def ctxA_def popDestroyed_rev handleEvent_def super.simps Let_def)

subsection \<open>\<^verbatim>\<open>super\<close> after the front of the block has been pruned\<close>

text \<open>
  Claim C3 says that in every dispatch \<^verbatim>\<open>super\<close> runs each live handler at most once,
  newest first, skips and prunes destroyed handlers, and is a no-op once the cursor has
  reached the front of the block. Here the block holds a destroyed handler 1 below a live
  handler 2 whose function calls \<^verbatim>\<open>super\<close> twice. The first of the two calls moves the
  stored cursor onto handler 1, finds it destroyed at the front, pops it and returns: the
  cursor is left on the node that was popped. The second call, which the claim makes a no-op,
  compares and decrements that cursor: the dispatch has no defined behaviour. When handler 1
  is live instead, the first call runs it, the cursor is at the front and the second call
  returns at once.
\<close>

theorem super_twice_over_destroyed_front_undefined:
  "fst (handleEvent evA ctxD) = Undefined
   \<and> newTrace ctxD (snd (handleEvent evA ctxD)) = [Execute 2 7]
   \<and> handlerBlocks (snd (handleEvent evA ctxD)) ''a''
       = Some [\<lparr>hid = 2, isDestroyed = False, body = [CallSuper, CallSuper]\<rparr>]
   \<and> map_option handler (handlerContext (snd (handleEvent evA ctxD))) = Some Dangling
   \<and> fst (handleEvent evA ctxL) = Normal
   \<and> newTrace ctxL (snd (handleEvent evA ctxL)) = [Execute 2 7, Execute 1 7]"
  by (simp add: ctxD_def ctxL_def evA_def handleEvent_def popDestroyed_rev super.simps Let_def
        newTrace_def eraseAt_def)

section \<open>Properties of \<^verbatim>\<open>process\<close>, \<^verbatim>\<open>yield\<close> and \<^verbatim>\<open>await\<close>\<close>

text \<open>The rules that evaluate the dispatch functions on a concrete context.\<close>

lemmas evalRules = process.simps handleEvent_def popDestroyed_rev super.simps Let_def newTrace_def

subsection \<open>Payloads are freed once\<close>

text \<open>
  Claim C1. Whenever \<^verbatim>\<open>process\<close> leaves, by returning or by an exception that a handler
  has thrown, the calls of \<^verbatim>\<open>freeData\<close> it has made are, in order, one for each event it
  has dequeued, on that event's data: each dequeued payload is freed exactly once on the
  normal and on the exceptional exit of \<^verbatim>\<open>handleEvent\<close>. A \<^verbatim>\<open>process\<close> that returns has
  dequeued the whole mailbox. The same holds for everything \<^verbatim>\<open>yield\<close> has dequeued, the
  events of its second look at the mailbox included, at whatever point the loop is left or
  observed.
\<close>

theorem free_exactly_once:
  "(fst (process ctx) \<noteq> Undefined \<longrightarrow>
      freed (newTrace ctx (snd (process ctx)))
        = map (\<lambda>e. (freeData e, data e)) (dequeued (newTrace ctx (snd (process ctx)))))
   \<and> (fst (process ctx) = Normal \<longrightarrow> dequeued (newTrace ctx (snd (process ctx))) = mailbox ctx)
   \<and> (fst (yield ts ctx) \<noteq> Undefined \<longrightarrow>
      freed (newTrace ctx (snd (yield ts ctx)))
        = map (\<lambda>e. (freeData e, data e)) (dequeued (newTrace ctx (snd (yield ts ctx)))))"
proof -
  from process_trace[of ctx] obtain t where t: "trace (snd (process ctx)) = trace ctx @ t"
    "fst (process ctx) = Normal \<longrightarrow> dequeued t = mailbox ctx" by blast
  from t(1) have "newTrace ctx (snd (process ctx)) = t" by (rule newTrace_append)
  with t(2) process_balanced[of ctx] yield_post[of ts ctx] show ?thesis
    by (simp add: yieldPost_def balanced_def)
qed

theorem free_exactly_once_witness:
  "fst (process ctxT) = Thrown (UserException 9)
   \<and> freed (newTrace ctxT (snd (process ctxT))) = [(3, 7)]
   \<and> dequeued (newTrace ctxT (snd (process ctxT))) = [evA]
   \<and> fst (process (ctxT\<lparr>handlerBlocks := Map.empty\<rparr>)) = Normal
   \<and> freed (newTrace (ctxT\<lparr>handlerBlocks := Map.empty\<rparr>) (snd (process (ctxT\<lparr>handlerBlocks := Map.empty\<rparr>))))
       = [(3, 7), (3, 8)]"
  using free_exactly_once[of ctxT "[]"] free_exactly_once[of "ctxT\<lparr>handlerBlocks := Map.empty\<rparr>" "[]"]
  by (simp add: ctxT_def evA_def evalRules)

subsection \<open>The handshake of \<^verbatim>\<open>yield\<close>\<close>

text \<open>
  Claim C2 ends: the fiber never suspends with a pending event left in its mailbox. The second
  look at the mailbox and \<^verbatim>\<open>suspend\<close> are two steps, and the mailbox does not need the
  mutex: an event that a sender enqueues after the second look has found nothing is in the
  mailbox when the fiber suspends. (Waking the fiber is then the sender's part of the
  handshake.) The claim also begins with the mutex being taken after the drain, which a fiber
  without an executor never does.
\<close>

theorem yield_suspends_with_pending_counterexample:
  "newTrace ctxA (snd (yield [tickLate] ctxA)) = [Lock, DequeueEmpty, Enqueue evA, Suspend]
   \<and> mailbox (snd (yield [tickLate] ctxA)) = [evA]
   \<and> filter (\<lambda>a. a = Lock)
         (newTrace (ctxA\<lparr>executor := False\<rparr>) (snd (yield [tickLate] (ctxA\<lparr>executor := False\<rparr>)))) = []"
  by (simp add: ctxA_def evA_def tickLate_def evalRules)

text \<open>
  Claim C2, amended. Every run of \<^verbatim>\<open>yield\<close> follows the handshake: the mutex is taken
  only when free; with the mutex held the fiber looks at the mailbox again and either takes
  one event, and then releases the mutex before any handler or \<^verbatim>\<open>freeData\<close> runs, or finds
  the mailbox empty; it suspends only while it holds the mutex and after a look that found
  the mailbox empty, so every event enqueued before that look has been dequeued before the
  fiber suspends. A fiber bound to an executor takes the mutex once in every iteration. In
  an iteration of a bound fiber the drain leaves the mailbox empty; when an event \<open>e\<close> was
  enqueued between the drain and the second look, the mutex is released, \<open>e\<close> is handled by
  \<^verbatim>\<open>handleEvent\<close> and freed, and the loop starts again (or the handler's exception leaves
  \<^verbatim>\<open>yield\<close>, after the free); when none was, the fiber suspends, with whatever senders
  enqueue after the look in its mailbox.
\<close>

theorem yield_recheck_under_mutex:
  "handshake (Free, mailbox ctx) (newTrace ctx (snd (yield ts ctx)))
     = Some (Free, mailbox (snd (yield ts ctx)))
   \<and> (executor ctx \<and> fst (yield ts ctx) = StillLooping \<longrightarrow>
        length (filter (\<lambda>a. a = Lock) (newTrace ctx (snd (yield ts ctx)))) = length ts)
   \<and> (fst (process ctx) = Normal \<longrightarrow> mailbox (snd (process ctx)) = [])
   \<and> (executor ctx \<and> fst (process ctx) = Normal \<and> beforeLock t @ beforeCheck t = e # es \<longrightarrow>
        yield (t # ts) ctx =
          (case handleEvent e
                  ((snd (process ctx))\<lparr>mailbox := es, mutexLocked := False,
                     trace := trace (snd (process ctx)) @ map Enqueue (beforeLock t) @ [Lock]
                              @ map Enqueue (beforeCheck t) @ [Dequeue e, Unlock]\<rparr>) of
             (Normal, c) \<Rightarrow>
               yield ts (c\<lparr>mailbox := mailbox c @ beforeSuspend t @ afterCheck t,
                           trace := trace c @ [FreeData (freeData e) (data e)]
                                    @ map Enqueue (beforeSuspend t @ afterCheck t)\<rparr>)
           | (Thrown x, c) \<Rightarrow> (Thrown x, c\<lparr>trace := trace c @ [FreeData (freeData e) (data e)]\<rparr>)
           | r \<Rightarrow> r))
   \<and> (executor ctx \<and> fst (process ctx) = Normal \<and> beforeLock t = [] \<and> beforeCheck t = [] \<longrightarrow>
        yield (t # ts) ctx =
          yield ts ((snd (process ctx))\<lparr>mailbox := beforeSuspend t @ afterCheck t,
                     mutexLocked := False,
                     trace := trace (snd (process ctx)) @ [Lock, DequeueEmpty]
                              @ map Enqueue (beforeSuspend t) @ [Suspend]
                              @ map Enqueue (afterCheck t)\<rparr>))"
proof -
  obtain r1 c1 where pr: "process ctx = (r1, c1)" by force
  from process_frame[of ctx] pr have ex: "executor c1 = executor ctx" by simp
  from process_drains[of ctx] pr have dr: "r1 = Normal \<Longrightarrow> mailbox c1 = []" by simp
  have found: "executor ctx \<and> r1 = Normal \<and> beforeLock t @ beforeCheck t = e # es \<longrightarrow>
        yield (t # ts) ctx =
          (case handleEvent e
                  (c1\<lparr>mailbox := es, mutexLocked := False,
                     trace := trace c1 @ map Enqueue (beforeLock t) @ [Lock]
                              @ map Enqueue (beforeCheck t) @ [Dequeue e, Unlock]\<rparr>) of
             (Normal, c) \<Rightarrow>
               yield ts (c\<lparr>mailbox := mailbox c @ beforeSuspend t @ afterCheck t,
                           trace := trace c @ [FreeData (freeData e) (data e)]
                                    @ map Enqueue (beforeSuspend t @ afterCheck t)\<rparr>)
           | (Thrown x, c) \<Rightarrow> (Thrown x, c\<lparr>trace := trace c @ [FreeData (freeData e) (data e)]\<rparr>)
           | r \<Rightarrow> r)"
    using pr ex dr by (simp add: Let_def)
  have empty: "executor ctx \<and> r1 = Normal \<and> beforeLock t = [] \<and> beforeCheck t = [] \<longrightarrow>
        yield (t # ts) ctx =
          yield ts (c1\<lparr>mailbox := beforeSuspend t @ afterCheck t, mutexLocked := False,
                     trace := trace c1 @ [Lock, DequeueEmpty]
                              @ map Enqueue (beforeSuspend t) @ [Suspend]
                              @ map Enqueue (afterCheck t)\<rparr>)"
    using pr ex dr by (simp add: Let_def)
  from yield_post[of ts ctx] have
    "handshake (Free, mailbox ctx) (newTrace ctx (snd (yield ts ctx)))
       = Some (Free, mailbox (snd (yield ts ctx)))"
    "executor ctx \<and> fst (yield ts ctx) = StillLooping \<longrightarrow>
        length (filter (\<lambda>a. a = Lock) (newTrace ctx (snd (yield ts ctx)))) = length ts"
    by (simp_all add: yieldPost_def segment_def)
  with found empty pr dr show ?thesis by simp
qed

theorem yield_recheck_under_mutex_witness:
  "fst (yield [tickRace, tickIdle] (ctxA\<lparr>mailbox := [evA]\<rparr>)) = StillLooping
   \<and> newTrace (ctxA\<lparr>mailbox := [evA]\<rparr>) (snd (yield [tickRace, tickIdle] (ctxA\<lparr>mailbox := [evA]\<rparr>)))
      = [Dequeue evA, Execute 1 7, FreeData 3 7, Enqueue evA, Lock, Dequeue evA, Unlock,
         Execute 1 7, FreeData 3 7, Lock, DequeueEmpty, Suspend]
   \<and> length (filter (\<lambda>a. a = Lock)
        (newTrace (ctxA\<lparr>mailbox := [evA]\<rparr>) (snd (yield [tickRace, tickIdle] (ctxA\<lparr>mailbox := [evA]\<rparr>))))) = 2
   \<and> mailbox (snd (process (ctxA\<lparr>mailbox := [evA]\<rparr>))) = []"
  using yield_recheck_under_mutex[where ctx = "ctxA\<lparr>mailbox := [evA]\<rparr>" and ts = "[tickRace, tickIdle]"
      and t = tickRace and e = evA and es = "[]"]
    yield_recheck_under_mutex[where ctx = "ctxA\<lparr>mailbox := [evA]\<rparr>" and ts = "[tickIdle]"
      and t = tickIdle and e = evA and es = "[]"]
  by (simp add: ctxA_def evA_def tickRace_def tickIdle_def evalRules)

subsection \<open>A fiber without an executor sleeps\<close>

text \<open>
  Claim C9. When the control block has no executor, the only operations of \<^verbatim>\<open>yield\<close>
  besides draining the mailbox are sleeps of one millisecond, one in each iteration of the
  loop: the mutex is never taken or released and the fiber never suspends. A fiber with an
  executor never sleeps.
\<close>

theorem yield_unbound_sleeps:
  "(\<not> executor ctx \<longrightarrow>
      (\<exists>k\<le>length ts. filter isSync (newTrace ctx (snd (yield ts ctx))) = replicate k (Sleep 1)
         \<and> (fst (yield ts ctx) = StillLooping \<longrightarrow> k = length ts)))
   \<and> (executor ctx \<longrightarrow> filter isSleep (newTrace ctx (snd (yield ts ctx))) = [])"
  using yield_post[of ts ctx] by (simp add: yieldPost_def)

theorem yield_unbound_sleeps_witness:
  "fst (yield [tickRace, tickIdle] (ctxA\<lparr>executor := False\<rparr>)) = StillLooping
   \<and> newTrace (ctxA\<lparr>executor := False\<rparr>) (snd (yield [tickRace, tickIdle] (ctxA\<lparr>executor := False\<rparr>)))
      = [Enqueue evA, Sleep 1, Dequeue evA, Execute 1 7, FreeData 3 7, Sleep 1]
   \<and> filter isSleep (newTrace ctxA (snd (yield [tickRace, tickIdle] ctxA))) = []"
  using yield_unbound_sleeps[of "ctxA\<lparr>executor := False\<rparr>" "[tickRace, tickIdle]"]
    yield_unbound_sleeps[of ctxA "[tickRace, tickIdle]"]
  by (simp add: ctxA_def evA_def tickRace_def tickIdle_def evalRules)

subsection \<open>\<^verbatim>\<open>yield\<close> does not return\<close>

text \<open>
  Claim C10. However many iterations of its loop are run, \<^verbatim>\<open>yield\<close> has not returned
  normally: the loop has no \<^verbatim>\<open>break\<close> and no \<^verbatim>\<open>return\<close>. It is left by an exception
  only, and an exception can only come out of a handler: in a context in which no handler
  function throws, \<^verbatim>\<open>yield\<close> is not left by an exception either.
\<close>

theorem yield_never_returns:
  "fst (yield ts ctx) \<noteq> Normal
   \<and> (neverThrows ctx \<longrightarrow> (\<forall>e. fst (yield ts ctx) \<noteq> Thrown e))"
  using yield_post[of ts ctx] yield_neverThrows[of ctx ts] by (simp add: yieldPost_def)

theorem yield_never_returns_witness:
  "neverThrows ctxA \<and> fst (yield [tickRace, tickIdle] ctxA) = StillLooping
   \<and> fst (yield [tickIdle] ctxT) = Thrown (UserException 9)"
  using yield_never_returns[of "[tickRace, tickIdle]" ctxA] yield_never_returns[of "[tickIdle]" ctxT]
  by (simp add: neverThrows_def ctxA_def ctxT_def evA_def tickRace_def tickIdle_def evalRules
           split: if_splits)

subsection \<open>\<^verbatim>\<open>await\<close> returns the emitted value\<close>










section \<open>Properties of the system\<close>

subsection \<open>\<^verbatim>\<open>run\<close> and \<^verbatim>\<open>shutdown\<close>\<close>

lemma runAll_shuttingDown:
  "shuttingDown s \<Longrightarrow> runAll rs s = Some (replicate (length rs) DeadLetterFiberRef, s)"
  by (induction rs) (auto simp: run_def)

text \<open>
  Claim C6. After \<^verbatim>\<open>shutdown\<close>, every call of \<^verbatim>\<open>run\<close>, however many follow and whatever
  their arguments, returns a dead-letter reference and leaves the system as it is: no control
  block is allocated and the flag stays set. \<^verbatim>\<open>shutdown\<close> itself allocates nothing. While the
  system is not shutting down, \<^verbatim>\<open>run\<close> allocates one control block that holds the new fiber
  and returns a local reference to that block's mailbox.
\<close>

theorem run_after_shutdown:
  "runAll rs (shutdown s) = Some (replicate (length rs) DeadLetterFiberRef, shutdown s)
   \<and> controlBlocks (shutdown s) = controlBlocks s
   \<and> (shuttingDown s \<longrightarrow> run f draw s = Some (DeadLetterFiberRef, s))
   \<and> (\<not> shuttingDown s \<and> draw < length (executors s) \<longrightarrow>
        (\<exists>s'. run f draw s = Some (LocalFiberRef (length (controlBlocks s)), s')
           \<and> controlBlocks s' = controlBlocks s
                @ [\<lparr>fiber = f, cbMailbox = length (controlBlocks s), finished = False\<rparr>]
           \<and> shuttingDown s' = shuttingDown s))"
  using runAll_shuttingDown[of "shutdown s" rs]
  by (simp add: shutdown_def run_def Let_def)

theorem run_after_shutdown_witness:
  "run 5 1 (shutdown sys2) = Some (DeadLetterFiberRef, shutdown sys2)
   \<and> (\<exists>s'. run 5 1 sys2 = Some (LocalFiberRef 0, s')
         \<and> controlBlocks s' = [\<lparr>fiber = 5, cbMailbox = 0, finished = False\<rparr>])"
  using run_after_shutdown[of "[]" sys2 5 1] run_after_shutdown[of "[]" "shutdown sys2" 5 1]
  by (auto simp add: sys2_def newSystem_def shutdown_def)

subsection \<open>The executor of a new fiber\<close>

text \<open>
  Claim C8 says that \<^verbatim>\<open>run\<close> picks the initial executor by a round-robin counter modulo
  the number of executors. The \<^verbatim>\<open>run\<close> of system.hpp draws the index from a uniform
  distribution instead (``Send it to a random executor''). On a system with two executors and
  the counter at zero, a draw of 1 sends the first fiber to executor 1, where the counter
  modulo two is 0; the counter is not touched.
\<close>

theorem run_round_robin_counterexample:
  "(\<exists>s'. run 7 1 sys2 = Some (LocalFiberRef 0, s') \<and> executors s' = [[], [0]]
         \<and> roundRobinCounter s' = roundRobinCounter sys2)
   \<and> unat (roundRobinCounter sys2) mod length (executors sys2) = 0"
  by (simp add: run_def sys2_def newSystem_def Let_def numeral_2_eq_2)

text \<open>
  Claim C8, amended. \<^verbatim>\<open>run\<close> hands the new control block to the executor whose index is
  the value drawn from the uniform distribution on the executor indices, and does not read or
  change the round-robin counter. The round-robin rule is that of \<^verbatim>\<open>System::schedule\<close>:
  the block goes to the executor at the counter's old value modulo the number of executors,
  and the counter goes up by one (wrapping at 64 bits).
\<close>

theorem run_random_schedule_round_robin:
  "(\<not> shuttingDown s \<and> draw < length (executors s) \<longrightarrow>
      (\<exists>ref s'. run f draw s = Some (ref, s')
         \<and> executors s' = (executors s)[draw := executors s ! draw @ [length (controlBlocks s)]]
         \<and> roundRobinCounter s' = roundRobinCounter s))
   \<and> (executors s \<noteq> [] \<longrightarrow>
      (\<exists>s'. schedule cb s = Some s'
         \<and> executors s' = (executors s)[unat (roundRobinCounter s) mod length (executors s) :=
               executors s ! (unat (roundRobinCounter s) mod length (executors s)) @ [cb]]
         \<and> roundRobinCounter s' = roundRobinCounter s + 1))"
  by (simp add: run_def schedule_def Let_def)

theorem run_random_schedule_round_robin_witness:
  "(\<exists>ref s'. run 7 1 sys2 = Some (ref, s') \<and> executors s' = [[], [0]])
   \<and> (\<exists>s'. schedule 4 sys2 = Some s' \<and> executors s' = [[4], []] \<and> roundRobinCounter s' = 1)"
  using run_random_schedule_round_robin[of sys2 1 7 4]
  by (auto simp add: sys2_def newSystem_def numeral_2_eq_2)

subsection \<open>The running counter and \<^verbatim>\<open>allFibersFinished\<close>\<close>

lemma fired_fiberFinished:
  "fired (fiberFinished s) = fired s + (if running s = 1 then 1 else 0)"
  by (simp add: fired_def fiberFinished_def Let_def)

lemma fired_fiberStarted: "fired (fiberStarted s) = fired s"
  by (simp add: fired_def fiberStarted_def)

text \<open>
  Claim C5 says that \<^verbatim>\<open>allFibersFinished\<close> fires exactly once in the lifetime of a system.
  \<^verbatim>\<open>fiberFinished\<close> keeps no record of having fired: when a fiber starts and finishes and
  then another one starts and finishes, the counter falls from one to zero twice and the event
  is emitted twice. In a lifetime without fibers it is not emitted at all.
\<close>

theorem allFibersFinished_once_counterexample:
  "fired (lifetime [Started, Finished, Started, Finished] sys2) = 2
   \<and> fired (lifetime [] sys2) = 0"
  by (simp add: fired_fiberFinished fired_fiberStarted)
     (simp add: fiberFinished_def fiberStarted_def sys2_def newSystem_def fired_def Let_def)

text \<open>
  Claim C5, amended. \<^verbatim>\<open>fiberFinished\<close> decrements the running counter (a 64-bit unsigned
  value, so zero wraps around) and emits \<^verbatim>\<open>allFibersFinished\<close> to the main fiber exactly
  when the counter was one before the decrement, once for each such call. An emission
  therefore never happens unless the counter has just reached zero, and a call that finds any
  other value leaves the main fiber's mailbox alone.
\<close>

theorem fiberFinished_fires_on_one_to_zero:
  "running (fiberFinished s) = running s - 1
   \<and> fired (fiberFinished s) = fired s + (if running s = 1 then 1 else 0)
   \<and> (fired (fiberFinished s) \<noteq> fired s \<longrightarrow> running (fiberFinished s) = 0)
   \<and> (running s = 1 \<longrightarrow>
        mainMailbox (fiberFinished s)
          = mainMailbox s @ [\<lparr>path = allFibersFinished s, data = 0, freeData = 0\<rparr>])
   \<and> (running s \<noteq> 1 \<longrightarrow> mainMailbox (fiberFinished s) = mainMailbox s)"
  by (simp add: fired_def fiberFinished_def Let_def)

theorem fiberFinished_fires_on_one_to_zero_witness:
  "fired (fiberFinished (fiberStarted sys2)) = 1
   \<and> running (fiberFinished (fiberStarted sys2)) = 0
   \<and> mainMailbox (fiberFinished (fiberStarted (fiberStarted sys2))) = []"
  using fiberFinished_fires_on_one_to_zero[of "fiberStarted sys2"]
    fiberFinished_fires_on_one_to_zero[of "fiberStarted (fiberStarted sys2)"]
  by (simp add: fiberStarted_def fiberFinished_def Let_def sys2_def newSystem_def fired_def)

end
